theory Spec2Isabelle
  imports Main "HOL-Library.Word"
begin

section \<open>Data model of \<^verbatim>\<open>Source/main.cpp\<close>\<close>

text \<open>
  Addresses are natural numbers.  A pointer that may be \<^verbatim>\<open>nullptr\<close> (\<^verbatim>\<open>void*\<close>, \<^verbatim>\<open>T*\<close>,
  \<^verbatim>\<open>ObjectInfo*\<close>) is an \<open>addr option\<close>, with \<open>None\<close> for \<^verbatim>\<open>nullptr\<close>.  An \<^verbatim>\<open>ObjectInfo*\<close>
  is represented by the key under which the record is stored in \<^verbatim>\<open>objects\<close>: the
  allocator stores every record under the address it describes, and a record is deleted
  exactly when its key is erased.  \<^verbatim>\<open>size_t\<close> is a 64-bit word.
\<close>

type_synonym addr = nat
type_synonym tname = string

text \<open>\<^verbatim>\<open>MemoryManager::ObjectInfo\<close>.  The field \<open>oi_destroy\<close> is the function pointer
  \<^verbatim>\<open>destroy\<close>: \<open>None\<close> is \<^verbatim>\<open>nullptr\<close>, \<open>Some T\<close> is \<^verbatim>\<open>&Destroyer<T>::Destroy\<close>.\<close>

record ObjectInfo =
  oi_object :: addr
  oi_size :: "64 word"
  oi_mark :: bool
  oi_source :: string
  oi_line :: int
  oi_pointers :: "addr list"
  oi_destroy :: "tname option"

text \<open>\<^verbatim>\<open>IPtr\<close> with the fields \<^verbatim>\<open>object\<close> and \<^verbatim>\<open>info\<close>; \<open>ptr_root\<close> is the result of the
  virtual \<^verbatim>\<open>IsRoot()\<close>, fixed by the dynamic type (\<^verbatim>\<open>Ptr<T>\<close> or \<^verbatim>\<open>RootPtr<T>\<close>).\<close>

record IPtr =
  ptr_object :: "addr option"
  ptr_info :: "addr option"
  ptr_root :: bool

text \<open>
  \<^verbatim>\<open>MemoryManager::instance\<close>.  \<open>objects\<close> is the \<^verbatim>\<open>std::map\<close> (an association list in
  ascending key order, the order in which the map is iterated), \<open>pointers\<close> the global
  \<^verbatim>\<open>std::vector<IPtr*>\<close>.  \<open>handles\<close> is the memory that holds the handle objects
  themselves: the handle at address \<open>h\<close> exists from its constructor to its destructor.
  \<open>released\<close> logs the calls of \<^verbatim>\<open>free\<close> and \<open>finalized\<close> the calls through
  \<^verbatim>\<open>destroy\<close>, in order.
\<close>

record MemoryManager =
  objects :: "(addr \<times> ObjectInfo) list"
  pointers :: "addr list"
  allocatedBytes :: "64 word"
  currentMark :: bool
  handles :: "addr \<rightharpoonup> IPtr"
  released :: "addr option list"
  finalized :: "addr list"

text \<open>The ways in which an operation fails instead of returning: the call of a null
  finalizer by the sweep, and the use of a pointer to a handle or to a record that does
  not exist, which is undefined behaviour in the source.\<close>

datatype error = NullFinalizer | WildPointer

definition instance0 :: MemoryManager where
  "instance0 = \<lparr>objects = [], pointers = [], allocatedBytes = 0, currentMark = True,
     handles = Map.empty, released = [], finalized = []\<rparr>"

subsection \<open>Access to records and handles\<close>

text \<open>\<^verbatim>\<open>objects.find(a)\<close>; a null pointer is never a key.\<close>

definition find_info :: "MemoryManager \<Rightarrow> addr \<Rightarrow> ObjectInfo option" where
  "find_info s a = map_of (objects s) a"

definition find_object :: "MemoryManager \<Rightarrow> addr option \<Rightarrow> ObjectInfo option" where
  "find_object s p = (case p of None \<Rightarrow> None | Some a \<Rightarrow> find_info s a)"

text \<open>An assignment through an \<^verbatim>\<open>ObjectInfo*\<close>: the record stored under \<open>a\<close> is changed in
  place.  The operations below use it on a record that they have found.\<close>

definition modify_info :: "addr \<Rightarrow> (ObjectInfo \<Rightarrow> ObjectInfo) \<Rightarrow> MemoryManager \<Rightarrow> MemoryManager" where
  "modify_info a f s =
     s\<lparr>objects := map (\<lambda>(k, r). if k = a then (k, f r) else (k, r)) (objects s)\<rparr>"

text \<open>\<^verbatim>\<open>objects[res] = objInfo\<close> and \<^verbatim>\<open>objects.erase(it)\<close> of the ordered map.\<close>

fun map_insert :: "addr \<Rightarrow> ObjectInfo \<Rightarrow> (addr \<times> ObjectInfo) list \<Rightarrow> (addr \<times> ObjectInfo) list" where
  "map_insert k v [] = [(k, v)]"
| "map_insert k v ((k', v') # xs) =
     (if k < k' then (k, v) # (k', v') # xs
      else if k = k' then (k, v) # xs
      else (k', v') # map_insert k v xs)"

definition map_erase :: "addr \<Rightarrow> (addr \<times> ObjectInfo) list \<Rightarrow> (addr \<times> ObjectInfo) list" where
  "map_erase a xs = filter (\<lambda>(k, r). k \<noteq> a) xs"

text \<open>Reading the handle at address \<open>h\<close>.  Reading a handle that does not exist is
  undefined behaviour in the source; the model reads an empty plain handle there.\<close>

definition get_ptr :: "MemoryManager \<Rightarrow> addr \<Rightarrow> IPtr" where
  "get_ptr s h = (case handles s h of
       None \<Rightarrow> \<lparr>ptr_object = None, ptr_info = None, ptr_root = False\<rparr>
     | Some p \<Rightarrow> p)"

definition modify_ptr :: "addr \<Rightarrow> (IPtr \<Rightarrow> IPtr) \<Rightarrow> MemoryManager \<Rightarrow> MemoryManager" where
  "modify_ptr h f s = (case handles s h of
       None \<Rightarrow> s
     | Some p \<Rightarrow> s\<lparr>handles := (handles s)(h \<mapsto> f p)\<rparr>)"

definition IsValid :: "MemoryManager \<Rightarrow> addr \<Rightarrow> bool" where
  "IsValid s h = (ptr_object (get_ptr s h) \<noteq> None)"

definition IsRoot :: "MemoryManager \<Rightarrow> addr \<Rightarrow> bool" where
  "IsRoot s h = ptr_root (get_ptr s h)"

definition MarkInvalid :: "addr \<Rightarrow> MemoryManager \<Rightarrow> MemoryManager" where
  "MarkInvalid h s = modify_ptr h (\<lambda>p. p\<lparr>ptr_object := None, ptr_info := None\<rparr>) s"

section \<open>The handle class \<^verbatim>\<open>Ptr<T>\<close>\<close>

text \<open>The block shared by the destructor and both assignments:
  \<^verbatim>\<open>if (info) { fnd = std::find(info->pointers...); if (fnd != end) erase(fnd); }\<close>.
  The block reads the handle and, when \<^verbatim>\<open>info\<close> is not null, the record that it points
  to.\<close>

definition unbind :: "addr \<Rightarrow> MemoryManager \<Rightarrow> error + MemoryManager" where
  "unbind this s = (case handles s this of
       None \<Rightarrow> Inl WildPointer
     | Some p \<Rightarrow>
        (case ptr_info p of
           None \<Rightarrow> Inr s
         | Some a \<Rightarrow>
            (case find_info s a of
               None \<Rightarrow> Inl WildPointer
             | Some r \<Rightarrow>
                Inr (modify_info a (\<lambda>r. r\<lparr>oi_pointers := remove1 this (oi_pointers r)\<rparr>) s))))"

text \<open>\<^verbatim>\<open>info->pointers.push_back(this)\<close>.\<close>

definition push_pointer :: "addr \<Rightarrow> addr \<Rightarrow> MemoryManager \<Rightarrow> MemoryManager" where
  "push_pointer a this s = modify_info a (\<lambda>r. r\<lparr>oi_pointers := oi_pointers r @ [this]\<rparr>) s"

text \<open>\<^verbatim>\<open>if (!info->destroy) info->destroy = &Destroyer<T>::Destroy\<close>.\<close>

definition bind_destroy :: "addr \<Rightarrow> tname \<Rightarrow> MemoryManager \<Rightarrow> MemoryManager" where
  "bind_destroy a T s = modify_info a
     (\<lambda>r. if oi_destroy r = None then r\<lparr>oi_destroy := Some T\<rparr> else r) s"

text \<open>\<^verbatim>\<open>Ptr()\<close> at address \<open>this\<close>; \<open>root\<close> says whether the object is a \<^verbatim>\<open>RootPtr\<close>.\<close>

definition Ptr_default :: "addr \<Rightarrow> bool \<Rightarrow> MemoryManager \<Rightarrow> MemoryManager" where
  "Ptr_default this root s =
     s\<lparr>handles := (handles s)(this \<mapsto> \<lparr>ptr_object = None, ptr_info = None, ptr_root = root\<rparr>),
       pointers := pointers s @ [this]\<rparr>"

text \<open>
  \<^verbatim>\<open>Ptr(T* object)\<close>.  The constructor assigns \<^verbatim>\<open>info\<close> only when the address is found;
  otherwise the field keeps whatever the storage at \<open>this\<close> held before, which is the
  parameter \<open>junk\<close>.
\<close>

definition Ptr_raw :: "addr \<Rightarrow> bool \<Rightarrow> tname \<Rightarrow> addr option \<Rightarrow> addr option \<Rightarrow> MemoryManager \<Rightarrow> MemoryManager" where
  "Ptr_raw this root T obj junk s =
     (let s1 = (case obj of
                  None \<Rightarrow> s\<lparr>handles := (handles s)(this \<mapsto>
                              \<lparr>ptr_object = obj, ptr_info = junk, ptr_root = root\<rparr>)\<rparr>
                | Some a \<Rightarrow>
                   (case find_info s a of
                      None \<Rightarrow> s\<lparr>handles := (handles s)(this \<mapsto>
                                  \<lparr>ptr_object = obj, ptr_info = junk, ptr_root = root\<rparr>)\<rparr>
                    | Some r \<Rightarrow> bind_destroy a T (push_pointer a this
                          (s\<lparr>handles := (handles s)(this \<mapsto>
                                \<lparr>ptr_object = obj, ptr_info = Some a, ptr_root = root\<rparr>)\<rparr>))))
      in s1\<lparr>pointers := pointers s1 @ [this]\<rparr>)"

text \<open>\<^verbatim>\<open>Ptr(const Ptr<T>& other)\<close>.  The constructor reads the handle \<open>other\<close> and, when the
  \<^verbatim>\<open>info\<close> it copies is not null, the record that it points to.\<close>

definition Ptr_copy :: "addr \<Rightarrow> bool \<Rightarrow> addr \<Rightarrow> MemoryManager \<Rightarrow> error + MemoryManager" where
  "Ptr_copy this root other s =
     (case handles s other of
        None \<Rightarrow> Inl WildPointer
      | Some p \<Rightarrow>
         (let s1 = s\<lparr>handles := (handles s)(this \<mapsto>
                     \<lparr>ptr_object = ptr_object p, ptr_info = ptr_info p, ptr_root = root\<rparr>)\<rparr>
          in (case ptr_info p of
                None \<Rightarrow> Inr (s1\<lparr>pointers := pointers s1 @ [this]\<rparr>)
              | Some a \<Rightarrow>
                 (case find_info s1 a of
                    None \<Rightarrow> Inl WildPointer
                  | Some r \<Rightarrow>
                     (let s2 = push_pointer a this s1
                      in Inr (s2\<lparr>pointers := pointers s2 @ [this]\<rparr>))))))"

text \<open>\<^verbatim>\<open>~Ptr()\<close>: after it the handle object no longer exists.\<close>

definition Ptr_dtor :: "addr \<Rightarrow> MemoryManager \<Rightarrow> error + MemoryManager" where
  "Ptr_dtor this s =
     (case unbind this s of
        Inl e \<Rightarrow> Inl e
      | Inr s1 \<Rightarrow>
         Inr (s1\<lparr>pointers := remove1 this (pointers s1), handles := (handles s1)(this := None)\<rparr>))"

text \<open>\<^verbatim>\<open>operator=(const Ptr<T>& other)\<close>; \<open>other\<close> is read after the unbinding, as in the
  source, which matters when \<open>other\<close> is \<open>this\<close>.\<close>

definition Ptr_assign :: "addr \<Rightarrow> addr \<Rightarrow> MemoryManager \<Rightarrow> error + MemoryManager" where
  "Ptr_assign this other s =
     (case unbind this s of
        Inl e \<Rightarrow> Inl e
      | Inr s1 \<Rightarrow>
         (case handles s1 other of
            None \<Rightarrow> Inl WildPointer
          | Some p \<Rightarrow>
             (let s2 = modify_ptr this
                         (\<lambda>q. q\<lparr>ptr_object := ptr_object p, ptr_info := ptr_info p\<rparr>) s1
              in (case ptr_info p of
                    None \<Rightarrow> Inr s2
                  | Some a \<Rightarrow>
                     (case find_info s2 a of
                        None \<Rightarrow> Inl WildPointer
                      | Some r \<Rightarrow> Inr (push_pointer a this s2))))))"

text \<open>\<^verbatim>\<open>operator=(T* other)\<close>.\<close>

definition Ptr_assign_raw :: "addr \<Rightarrow> tname \<Rightarrow> addr option \<Rightarrow> MemoryManager \<Rightarrow> error + MemoryManager" where
  "Ptr_assign_raw this T other s =
     (case unbind this s of
        Inl e \<Rightarrow> Inl e
      | Inr s1 \<Rightarrow>
         Inr (case other of
                None \<Rightarrow> modify_ptr this (\<lambda>q. q\<lparr>ptr_object := other, ptr_info := None\<rparr>) s1
              | Some a \<Rightarrow>
                 (case find_info s1 a of
                    None \<Rightarrow> modify_ptr this (\<lambda>q. q\<lparr>ptr_object := other, ptr_info := None\<rparr>) s1
                  | Some r \<Rightarrow> bind_destroy a T (push_pointer a this
                        (modify_ptr this (\<lambda>q. q\<lparr>ptr_object := other, ptr_info := Some a\<rparr>) s1)))))"

section \<open>Allocation and explicit deallocation\<close>

text \<open>\<^verbatim>\<open>operator new(size, source, line)\<close>; \<open>res\<close> is the address \<^verbatim>\<open>malloc\<close> returned.\<close>

definition operator_new :: "addr \<Rightarrow> 64 word \<Rightarrow> string \<Rightarrow> int \<Rightarrow> MemoryManager \<Rightarrow> MemoryManager" where
  "operator_new res sz src ln s =
     s\<lparr>objects := map_insert res
          \<lparr>oi_object = res, oi_size = sz, oi_mark = currentMark s, oi_source = src,
           oi_line = ln, oi_pointers = [], oi_destroy = None\<rparr> (objects s),
       allocatedBytes := allocatedBytes s + sz\<rparr>"

text \<open>\<^verbatim>\<open>operator delete(void* data)\<close>.\<close>

definition operator_delete :: "addr option \<Rightarrow> MemoryManager \<Rightarrow> MemoryManager" where
  "operator_delete data s =
     (let s1 = (case data of
                  None \<Rightarrow> s
                | Some a \<Rightarrow>
                   (case find_info s a of
                      None \<Rightarrow> s
                    | Some r \<Rightarrow>
                       (let s2 = s\<lparr>allocatedBytes := allocatedBytes s - oi_size r\<rparr>;
                            s3 = fold MarkInvalid (oi_pointers r) s2
                        in s3\<lparr>objects := map_erase a (objects s3)\<rparr>)))
      in s1\<lparr>released := released s1 @ [data]\<rparr>)"

section \<open>The collector\<close>

text \<open>The loop of \<^verbatim>\<open>MarkObject\<close> over \<^verbatim>\<open>instance.pointers\<close>; \<open>rec\<close> is the recursive call.\<close>

fun mark_scan :: "(MemoryManager \<Rightarrow> addr \<Rightarrow> MemoryManager option) \<Rightarrow> addr \<Rightarrow> addr \<Rightarrow> addr list
    \<Rightarrow> MemoryManager \<Rightarrow> MemoryManager option" where
  "mark_scan rec left right [] s = Some s"
| "mark_scan rec left right (ptr # ps) s =
     (if left \<le> ptr \<and> ptr < right then
        (case ptr_info (get_ptr s ptr) of
           None \<Rightarrow> mark_scan rec left right ps s
         | Some b \<Rightarrow>
            (case find_info s b of
               None \<Rightarrow> mark_scan rec left right ps s
             | Some r \<Rightarrow>
                if oi_mark r \<noteq> currentMark s then
                  (case rec s b of None \<Rightarrow> None | Some s' \<Rightarrow> mark_scan rec left right ps s')
                else mark_scan rec left right ps s))
      else mark_scan rec left right ps s)"

text \<open>
  \<^verbatim>\<open>MemoryManager::MarkObject(info)\<close>.  The first argument bounds the depth of the
  recursion: \<open>None\<close> means that the bound was reached before the call returned.
\<close>

primrec MarkObject :: "nat \<Rightarrow> MemoryManager \<Rightarrow> addr \<Rightarrow> MemoryManager option" where
  "MarkObject 0 s a = None"
| "MarkObject (Suc n) s a =
     (case find_info s a of
        None \<Rightarrow> Some s
      | Some r \<Rightarrow>
         mark_scan (MarkObject n) (oi_object r) (oi_object r + unat (oi_size r)) (pointers s)
           (modify_info a (\<lambda>r. r\<lparr>oi_mark := currentMark s\<rparr>) s))"

text \<open>The first loop of \<^verbatim>\<open>CollectGarbage\<close>: mark from every bound root handle.\<close>

fun mark_roots :: "nat \<Rightarrow> addr list \<Rightarrow> MemoryManager \<Rightarrow> MemoryManager option" where
  "mark_roots n [] s = Some s"
| "mark_roots n (ptr # ps) s =
     (if IsRoot s ptr then
        (case ptr_info (get_ptr s ptr) of
           None \<Rightarrow> mark_roots n ps s
         | Some a \<Rightarrow> (case MarkObject n s a of None \<Rightarrow> None | Some s' \<Rightarrow> mark_roots n ps s'))
      else mark_roots n ps s)"

text \<open>
  \<^verbatim>\<open>Destroyer<T>::Destroy(obj)\<close> runs \<^verbatim>\<open>~T()\<close> on the object, where \<^verbatim>\<open>T\<close> is the type
  of the first handle that was bound to the record.  What \<^verbatim>\<open>~T()\<close> does is the code of
  the client.  It acts on the collector by the handles that it destroys: the handle
  members of \<^verbatim>\<open>T\<close> and of its bases, and handles that the object owns elsewhere.  A
  \<open>teardown\<close> gives, for the type \<open>T\<close>, the address of the object and the state in which
  the destructor starts, the addresses of these handles in the order of their
  destruction.  A destructor is taken to do nothing else to the collector: it does not
  allocate or delete managed objects, assign to handles or call the collector, and
  unmanaged storage that it releases is not recorded.
\<close>

type_synonym teardown = "tname \<Rightarrow> addr \<Rightarrow> MemoryManager \<Rightarrow> addr list"

fun destroy_handles :: "addr list \<Rightarrow> MemoryManager \<Rightarrow> error + MemoryManager" where
  "destroy_handles [] s = Inr s"
| "destroy_handles (h # hs) s =
     (case Ptr_dtor h s of Inl e \<Rightarrow> Inl e | Inr s' \<Rightarrow> destroy_handles hs s')"

definition Destroy :: "teardown \<Rightarrow> tname \<Rightarrow> addr \<Rightarrow> MemoryManager \<Rightarrow> error + MemoryManager" where
  "Destroy D T a s = destroy_handles (D T a s) (s\<lparr>finalized := finalized s @ [a]\<rparr>)"

text \<open>The body of the last loop of \<^verbatim>\<open>CollectGarbage\<close> for the map entry with key \<open>a\<close>.
  Calling the null function pointer is the fatal path.\<close>

definition sweep_object :: "teardown \<Rightarrow> addr \<Rightarrow> MemoryManager \<Rightarrow> error + MemoryManager" where
  "sweep_object D a s =
     (case find_info s a of
        None \<Rightarrow> Inr s
      | Some r \<Rightarrow>
         (let s1 = s\<lparr>allocatedBytes := allocatedBytes s - oi_size r\<rparr>
          in (case oi_destroy r of
                None \<Rightarrow> Inl NullFinalizer
              | Some T \<Rightarrow>
                 (case Destroy D T a s1 of
                    Inl e \<Rightarrow> Inl e
                  | Inr s2 \<Rightarrow>
                     (let s3 = s2\<lparr>released := released s2 @ [Some a]\<rparr>;
                          ps = (case find_info s3 a of None \<Rightarrow> [] | Some r' \<Rightarrow> oi_pointers r');
                          s4 = fold MarkInvalid ps s3
                      in Inr (s4\<lparr>objects := map_erase a (objects s4)\<rparr>))))))"

fun sweep :: "teardown \<Rightarrow> addr list \<Rightarrow> MemoryManager \<Rightarrow> error + MemoryManager" where
  "sweep D [] s = Inr s"
| "sweep D (a # as) s = (case sweep_object D a s of Inl e \<Rightarrow> Inl e | Inr s' \<Rightarrow> sweep D as s')"

text \<open>The second loop of \<^verbatim>\<open>CollectGarbage\<close>: the entries whose mark is not the current one.\<close>

definition freeObjects :: "MemoryManager \<Rightarrow> addr list" where
  "freeObjects s = map fst (filter (\<lambda>(k, r). oi_mark r \<noteq> currentMark s) (objects s))"

text \<open>\<^verbatim>\<open>MemoryManager::CollectGarbage()\<close>, with the destructors of the client and the bound
  on the depth of marking.\<close>

definition CollectGarbage :: "teardown \<Rightarrow> nat \<Rightarrow> MemoryManager \<Rightarrow> (error + MemoryManager) option" where
  "CollectGarbage D n s =
     (let s0 = s\<lparr>currentMark := \<not> currentMark s\<rparr>
      in (case mark_roots n (pointers s0) s0 of
            None \<Rightarrow> None
          | Some s1 \<Rightarrow> Some (sweep D (freeObjects s1) s1)))"

text \<open>
  The destructor of a class that does nothing but destroy its handle members, last
  constructed first, for every class: the handle members of the object at \<open>a\<close> are the
  registered handles stored within its block.  The classes \<^verbatim>\<open>A\<close>, \<^verbatim>\<open>B\<close>, \<^verbatim>\<open>C\<close>, \<^verbatim>\<open>D\<close> of
  \<^verbatim>\<open>main.cpp\<close> have such destructors.
\<close>

definition member_handles :: teardown where
  "member_handles T a s =
     (case find_info s a of
        None \<Rightarrow> []
      | Some r \<Rightarrow> rev (filter (\<lambda>h. a \<le> h \<and> h < a + unat (oi_size r)) (pointers s)))"

section \<open>Notions used to state the properties\<close>

text \<open>The address of handle \<open>h\<close> lies within the extent of the record: the test
  \<^verbatim>\<open>cptr >= left && cptr < right\<close> of \<^verbatim>\<open>MarkObject\<close>.\<close>

definition in_range :: "ObjectInfo \<Rightarrow> addr \<Rightarrow> bool" where
  "in_range r h = (oi_object r \<le> h \<and> h < oi_object r + unat (oi_size r))"

definition embedded :: "MemoryManager \<Rightarrow> addr \<Rightarrow> addr \<Rightarrow> bool" where
  "embedded s a h = (case find_info s a of None \<Rightarrow> False | Some r \<Rightarrow> in_range r h)"

text \<open>The record a handle is bound to, when that record is registered.\<close>

definition bound_to :: "MemoryManager \<Rightarrow> addr \<Rightarrow> addr option" where
  "bound_to s h = (case ptr_info (get_ptr s h) of
       None \<Rightarrow> None
     | Some b \<Rightarrow> (case find_info s b of None \<Rightarrow> None | Some r \<Rightarrow> Some b))"

text \<open>The reference graph: an edge from record \<open>a\<close> to record \<open>b\<close> for every registered
  handle stored inside \<open>a\<close> and bound to \<open>b\<close>.  A record is reachable when a path of such
  edges leads to it from the target of a bound root handle.\<close>

definition edges :: "MemoryManager \<Rightarrow> (addr \<times> addr) set" where
  "edges s = {(a, b). \<exists>h \<in> set (pointers s). embedded s a h \<and> bound_to s h = Some b}"

definition root_targets :: "MemoryManager \<Rightarrow> addr set" where
  "root_targets s = {a. \<exists>h \<in> set (pointers s). IsRoot s h \<and> bound_to s h = Some a}"

definition reach :: "MemoryManager \<Rightarrow> addr set" where
  "reach s = (edges s)\<^sup>* `` root_targets s"

text \<open>The state \<open>s\<close> with the records in \<open>M\<close> marked with the current mark, and the
  registered records that do not carry the current mark.\<close>

definition mark_all :: "addr set \<Rightarrow> MemoryManager \<Rightarrow> MemoryManager" where
  "mark_all M s =
     s\<lparr>objects := map (\<lambda>(k, r). if k \<in> M then (k, r\<lparr>oi_mark := currentMark s\<rparr>) else (k, r))
        (objects s)\<rparr>"

definition unmarked :: "MemoryManager \<Rightarrow> addr set" where
  "unmarked s = {a. \<exists>r. find_info s a = Some r \<and> oi_mark r \<noteq> currentMark s}"

text \<open>The record that \<^verbatim>\<open>MarkObject\<close> recurses into from the handle \<open>p\<close>, and the record that
  \<^verbatim>\<open>CollectGarbage\<close> marks from it.\<close>

definition scan_target :: "MemoryManager \<Rightarrow> addr \<Rightarrow> addr \<Rightarrow> addr \<Rightarrow> addr option" where
  "scan_target s left right p =
     (if left \<le> p \<and> p < right then
        (case bound_to s p of
           None \<Rightarrow> None
         | Some b \<Rightarrow> if b \<in> unmarked s then Some b else None)
      else None)"

definition root_target :: "MemoryManager \<Rightarrow> addr \<Rightarrow> addr option" where
  "root_target s p = (if IsRoot s p then ptr_info (get_ptr s p) else None)"

text \<open>Every edge that leaves a record of \<open>X\<close> leads into \<open>M\<close> or to a record that carried the
  current mark from the start.\<close>

definition closed_in :: "MemoryManager \<Rightarrow> addr set \<Rightarrow> addr set \<Rightarrow> bool" where
  "closed_in s X M = (\<forall>x \<in> X. \<forall>y. (x, y) \<in> edges s \<longrightarrow> y \<in> M \<or> y \<notin> unmarked s)"

text \<open>What a call \<^verbatim>\<open>MarkObject(a)\<close> that starts with the set \<open>M\<close> marked has achieved when it
  returns with the set \<open>M'\<close> marked.\<close>

definition marked_from :: "MemoryManager \<Rightarrow> addr set \<Rightarrow> addr \<Rightarrow> addr set \<Rightarrow> bool" where
  "marked_from s M a M' =
     (M \<subseteq> M' \<and> (find_info s a \<noteq> None \<longrightarrow> a \<in> M') \<and> M' \<subseteq> M \<union> (edges s)\<^sup>* `` {a}
      \<and> closed_in s (insert a (M' - M)) M')"

text \<open>The record table without the lists of bound handles: what none of the handle
  operations changes.\<close>

definition skeleton :: "MemoryManager \<Rightarrow> (addr \<times> ObjectInfo) list" where
  "skeleton s = map (\<lambda>(k, r). (k, r\<lparr>oi_pointers := []\<rparr>)) (objects s)"

subsection \<open>The state that an operation returns\<close>

text \<open>
  The state in which \<^verbatim>\<open>unbind\<close>, the copy constructor, the destructor and the assignments
  leave the heap when they return, written as total functions of the state before.
  They are not the operations: they serve to state and to prove facts about an
  operation that has returned, which has returned this state (lemmas \<open>unbind_Inr\<close>,
  \<open>Ptr_copy_Inr\<close>, \<open>Ptr_dtor_Inr\<close>, \<open>Ptr_assign_Inr\<close>, \<open>Ptr_assign_raw_Inr\<close>), and say
  nothing where the operation fails.
\<close>

definition after_unbind :: "addr \<Rightarrow> MemoryManager \<Rightarrow> MemoryManager" where
  "after_unbind this s = (case ptr_info (get_ptr s this) of
       None \<Rightarrow> s
     | Some a \<Rightarrow> modify_info a (\<lambda>r. r\<lparr>oi_pointers := remove1 this (oi_pointers r)\<rparr>) s)"

definition after_copy :: "addr \<Rightarrow> bool \<Rightarrow> addr \<Rightarrow> MemoryManager \<Rightarrow> MemoryManager" where
  "after_copy this root other s =
     (let p = get_ptr s other;
          s1 = s\<lparr>handles := (handles s)(this \<mapsto>
                  \<lparr>ptr_object = ptr_object p, ptr_info = ptr_info p, ptr_root = root\<rparr>)\<rparr>;
          s2 = (case ptr_info p of None \<Rightarrow> s1 | Some a \<Rightarrow> push_pointer a this s1)
      in s2\<lparr>pointers := pointers s2 @ [this]\<rparr>)"

definition after_dtor :: "addr \<Rightarrow> MemoryManager \<Rightarrow> MemoryManager" where
  "after_dtor this s =
     (let s1 = after_unbind this s
      in s1\<lparr>pointers := remove1 this (pointers s1), handles := (handles s1)(this := None)\<rparr>)"

definition after_assign :: "addr \<Rightarrow> addr \<Rightarrow> MemoryManager \<Rightarrow> MemoryManager" where
  "after_assign this other s =
     (let s1 = after_unbind this s;
          p = get_ptr s1 other;
          s2 = modify_ptr this (\<lambda>q. q\<lparr>ptr_object := ptr_object p, ptr_info := ptr_info p\<rparr>) s1
      in (case ptr_info p of None \<Rightarrow> s2 | Some a \<Rightarrow> push_pointer a this s2))"

definition after_assign_raw :: "addr \<Rightarrow> tname \<Rightarrow> addr option \<Rightarrow> MemoryManager \<Rightarrow> MemoryManager" where
  "after_assign_raw this T other s =
     (let s1 = after_unbind this s
      in (case other of
            None \<Rightarrow> modify_ptr this (\<lambda>q. q\<lparr>ptr_object := other, ptr_info := None\<rparr>) s1
          | Some a \<Rightarrow>
             (case find_info s1 a of
                None \<Rightarrow> modify_ptr this (\<lambda>q. q\<lparr>ptr_object := other, ptr_info := None\<rparr>) s1
              | Some r \<Rightarrow> bind_destroy a T (push_pointer a this
                    (modify_ptr this (\<lambda>q. q\<lparr>ptr_object := other, ptr_info := Some a\<rparr>) s1)))))"

subsection \<open>The invariant of the heap\<close>

text \<open>Every record is stored once, under the address it describes.\<close>

definition keys_ok :: "MemoryManager \<Rightarrow> bool" where
  "keys_ok s = (distinct (map fst (objects s)) \<and> (\<forall>(a, r) \<in> set (objects s). oi_object r = a))"

text \<open>Between two collections every record carries the current mark.\<close>

definition marks_ok :: "MemoryManager \<Rightarrow> bool" where
  "marks_ok s = (\<forall>(a, r) \<in> set (objects s). oi_mark r = currentMark s)"

text \<open>The global registry lists existing handles, each once.\<close>

definition registry_ok :: "MemoryManager \<Rightarrow> bool" where
  "registry_ok s = (distinct (pointers s) \<and> (\<forall>h \<in> set (pointers s). handles s h \<noteq> None))"

text \<open>A registered handle that refers to a record refers to a registered record and is in
  the list of that record.\<close>

definition bound_ok :: "MemoryManager \<Rightarrow> bool" where
  "bound_ok s = (\<forall>h \<in> set (pointers s).
     (case ptr_info (get_ptr s h) of
        None \<Rightarrow> True
      | Some a \<Rightarrow> (case find_info s a of None \<Rightarrow> False | Some r \<Rightarrow> h \<in> set (oi_pointers r))))"

text \<open>The list of a record holds, each once, registered handles that refer to the record.\<close>

definition lists_ok :: "MemoryManager \<Rightarrow> bool" where
  "lists_ok s = (\<forall>(a, r) \<in> set (objects s). distinct (oi_pointers r) \<and>
     (\<forall>h \<in> set (oi_pointers r). h \<in> set (pointers s) \<and> ptr_info (get_ptr s h) = Some a))"

text \<open>The extents of different records do not overlap, as \<^verbatim>\<open>malloc\<close> guarantees for live
  blocks.\<close>

definition extents_ok :: "MemoryManager \<Rightarrow> bool" where
  "extents_ok s = (\<forall>(a, r) \<in> set (objects s). \<forall>(b, r') \<in> set (objects s).
     a \<noteq> b \<longrightarrow> a + unat (oi_size r) \<le> b \<or> b + unat (oi_size r') \<le> a)"

definition heap_inv :: "MemoryManager \<Rightarrow> bool" where
  "heap_inv s = (keys_ok s \<and> marks_ok s \<and> registry_ok s \<and> bound_ok s \<and> lists_ok s \<and> extents_ok s)"

text \<open>The state after the mark phase of a collection that starts in a state where every
  record carries the current mark: the mark is flipped and the reachable records carry
  the new one.\<close>

definition flipped :: "MemoryManager \<Rightarrow> MemoryManager" where
  "flipped s = mark_all (reach s) (s\<lparr>currentMark := \<not> currentMark s\<rparr>)"

text \<open>The reachable records as the mark phase computes them, and what can be observed of
  the result of a collection: the keys of the record table, the finalizer calls, the
  calls of \<^verbatim>\<open>free\<close>, the global handle registry and the byte counter.\<close>

definition reach_list :: "nat \<Rightarrow> MemoryManager \<Rightarrow> addr list option" where
  "reach_list n s =
     (case mark_roots n (pointers s) (s\<lparr>currentMark := \<not> currentMark s\<rparr>) of
        None \<Rightarrow> None
      | Some s1 \<Rightarrow> Some (map fst (filter (\<lambda>(k, r). oi_mark r = currentMark s1) (objects s1))))"

definition observe :: "MemoryManager \<Rightarrow> addr list \<times> addr list \<times> addr option list \<times> addr list \<times> 64 word" where
  "observe s = (map fst (objects s), finalized s, released s, pointers s, allocatedBytes s)"

definition collect_observe :: "teardown \<Rightarrow> nat \<Rightarrow> MemoryManager \<Rightarrow> (error + addr list \<times> addr list \<times> addr option list \<times> addr list \<times> 64 word) option" where
  "collect_observe D n s = map_option (map_sum id observe) (CollectGarbage D n s)"

text \<open>A handle that is empty: no target and no record.  (A handle that no longer exists
  reads as empty.)\<close>

definition cleared :: "MemoryManager \<Rightarrow> addr \<Rightarrow> bool" where
  "cleared s h = (ptr_object (get_ptr s h) = None \<and> ptr_info (get_ptr s h) = None)"

text \<open>The handles at the addresses \<open>hs\<close> after a collection.\<close>

definition collect_handles :: "teardown \<Rightarrow> nat \<Rightarrow> MemoryManager \<Rightarrow> addr list \<Rightarrow> (error + IPtr option list) option" where
  "collect_handles D n s hs = map_option (map_sum id (\<lambda>s'. map (handles s') hs)) (CollectGarbage D n s)"

text \<open>The invariant without the marks, which do not all agree during a collection.\<close>

definition links_ok :: "MemoryManager \<Rightarrow> bool" where
  "links_ok s = (keys_ok s \<and> lists_ok s \<and> bound_ok s \<and> registry_ok s \<and> extents_ok s)"

text \<open>
  The destructors of the client destroy handles that exist, each once: in a state whose
  registry lists no handle twice, the handles that a destructor destroys are registered
  and pairwise different.
\<close>

definition teardown_ok :: "teardown \<Rightarrow> bool" where
  "teardown_ok D = (\<forall>T a s. distinct (pointers s) \<longrightarrow>
     distinct (D T a s) \<and> set (D T a s) \<subseteq> set (pointers s))"

text \<open>
  A collection that leads from \<open>s\<close> to \<open>s'\<close> has kept the handles that hold the surviving
  records: every root handle, and every handle stored inside a record that is still
  registered in \<open>s'\<close>, is still registered in \<open>s'\<close>.
\<close>

definition handles_kept :: "MemoryManager \<Rightarrow> MemoryManager \<Rightarrow> bool" where
  "handles_kept s s' = (\<forall>h \<in> set (pointers s).
     IsRoot s h \<or> (\<exists>(a, r) \<in> set (objects s). a \<in> set (map fst (objects s')) \<and> in_range r h)
       \<longrightarrow> h \<in> set (pointers s'))"

text \<open>Two collections in a row, observed after each.\<close>

definition collect_twice :: "teardown \<Rightarrow> nat \<Rightarrow> MemoryManager \<Rightarrow>
    ((addr list \<times> addr list \<times> addr option list \<times> addr list \<times> 64 word) \<times>
     (error + addr list \<times> addr list \<times> addr option list \<times> addr list \<times> 64 word) option) option" where
  "collect_twice D n s =
     (case CollectGarbage D n s of
        None \<Rightarrow> None
      | Some (Inl e) \<Rightarrow> None
      | Some (Inr s') \<Rightarrow> Some (observe s', collect_observe D n s'))"

text \<open>The global registry lists exactly the handles that exist, each once.\<close>

definition registered_once :: "MemoryManager \<Rightarrow> bool" where
  "registered_once s = (distinct (pointers s) \<and> set (pointers s) = dom (handles s))"

section \<open>Runs of the program\<close>

text \<open>The block that \<^verbatim>\<open>malloc\<close> returns is not registered and overlaps no registered block.\<close>

definition fresh_block :: "MemoryManager \<Rightarrow> addr \<Rightarrow> 64 word \<Rightarrow> bool" where
  "fresh_block s res sz = (\<forall>(a, r) \<in> set (objects s).
     a \<noteq> res \<and> (res + unat sz \<le> a \<or> a + unat (oi_size r) \<le> res))"

text \<open>
  One operation of the client on the heap.  A constructor runs at an address where no
  handle exists.  An operation that fails has no successor state: the copy constructor,
  the destructor and the assignments return only when the handles that they use exist
  and refer to no record or to a registered one, and a collection may end in the fatal
  call.  The constructor from an address is used on an unregistered address only over
  storage whose \<^verbatim>\<open>info\<close> field holds the null pointer.
\<close>

inductive proper_step :: "MemoryManager \<Rightarrow> MemoryManager \<Rightarrow> bool" where
  new: "fresh_block s res sz \<Longrightarrow> proper_step s (operator_new res sz src ln s)"
| delete: "proper_step s (operator_delete data s)"
| ctor_default: "handles s this = None \<Longrightarrow> proper_step s (Ptr_default this root s)"
| ctor_raw: "handles s this = None \<Longrightarrow> find_object s obj = None \<longrightarrow> junk = None \<Longrightarrow>
    proper_step s (Ptr_raw this root T obj junk s)"
| ctor_copy: "handles s this = None \<Longrightarrow> Ptr_copy this root other s = Inr s' \<Longrightarrow>
    proper_step s s'"
| dtor: "Ptr_dtor this s = Inr s' \<Longrightarrow> proper_step s s'"
| assign: "Ptr_assign this other s = Inr s' \<Longrightarrow> proper_step s s'"
| assign_raw: "Ptr_assign_raw this T obj s = Inr s' \<Longrightarrow> proper_step s s'"
| collect: "CollectGarbage D n s = Some (Inr s') \<Longrightarrow> proper_step s s'"

text \<open>The states that the program can be in: those that operations lead to from the initial
  state of \<^verbatim>\<open>MemoryManager::instance\<close>.\<close>

inductive proper_run :: "MemoryManager \<Rightarrow> bool" where
  start: "proper_run instance0"
| after: "proper_run s \<Longrightarrow> proper_step s s' \<Longrightarrow> proper_run s'"

section \<open>Concrete heaps\<close>

text \<open>
  The state that \<^verbatim>\<open>main\<close> has built when it calls \<^verbatim>\<open>CollectGarbage\<close>.  A handle is three
  machine words (the virtual table pointer, \<^verbatim>\<open>object\<close>, \<^verbatim>\<open>info\<close>): 24 bytes.  The objects
  \<^verbatim>\<open>A\<close>, \<^verbatim>\<open>B\<close>, \<^verbatim>\<open>C\<close>, \<^verbatim>\<open>D\<close> are placed at 100, 200, 300, 400, so that the members
  \<^verbatim>\<open>A::pb\<close>, \<^verbatim>\<open>A::pc\<close>, \<^verbatim>\<open>B::pc\<close>, \<^verbatim>\<open>C::pd\<close>, \<^verbatim>\<open>D::pc\<close> are the handles at 100, 124, 200, 300,
  400; the root handle \<^verbatim>\<open>pa\<close> is at 10.  Each \<^verbatim>\<open>mnew T\<close> is \<^verbatim>\<open>operator new\<close> followed by the
  default constructors of the members of \<^verbatim>\<open>T\<close>.  Every assignment of \<^verbatim>\<open>main\<close> returns; its
  result is taken with \<open>projr\<close>.
\<close>

definition main_new_A :: MemoryManager where
  "main_new_A =
     Ptr_raw 10 True ''A'' (Some 100) None
       (Ptr_default 124 False (Ptr_default 100 False
         (operator_new 100 48 ''main.cpp'' 400 instance0)))"

definition main_new_B :: MemoryManager where
  "main_new_B =
     projr (Ptr_assign_raw 100 ''B'' (Some 200)
       (Ptr_default 200 False (operator_new 200 24 ''main.cpp'' 402 main_new_A)))"

definition main_new_C :: MemoryManager where
  "main_new_C =
     projr (Ptr_assign_raw 124 ''C'' (Some 300)
       (Ptr_default 300 False (operator_new 300 24 ''main.cpp'' 403 main_new_B)))"

definition main_new_D :: MemoryManager where
  "main_new_D =
     projr (Ptr_assign_raw 300 ''D'' (Some 400)
       (Ptr_default 400 False (operator_new 400 24 ''main.cpp'' 405 main_new_C)))"

definition main_before_collect :: MemoryManager where
  "main_before_collect =
     projr (Ptr_assign_raw 124 ''C'' None (projr (Ptr_assign 400 124 main_new_D)))"

text \<open>A heap with one registered object, to which a plain handle at 10 is bound.\<close>

definition one_object :: MemoryManager where
  "one_object = Ptr_raw 10 False ''T'' (Some 100) None (operator_new 100 48 ''t.cpp'' 1 instance0)"

text \<open>A heap with one registered object and no handle at all.\<close>

definition bare_object :: MemoryManager where
  "bare_object = operator_new 100 48 ''t.cpp'' 1 instance0"


text \<open>
  An object \<^verbatim>\<open>X\<close> at 100 that owns a \<^verbatim>\<open>RootPtr<Y>\<close> outside its block, at 50, bound to an
  object \<^verbatim>\<open>Y\<close> at 200, and whose destructor destroys the handle that it owns (the
  teardown \<open>owner_teardown\<close>):
  \<^verbatim>\<open>struct X { RootPtr<Y>* r; X() { r = new RootPtr<Y>(mnew Y); } ~X() { delete r; } };\<close>
  The plain handle at 10 is bound to \<^verbatim>\<open>X\<close>: \<^verbatim>\<open>Ptr<X> px = mnew X;\<close>
\<close>

definition owned_root :: MemoryManager where
  "owned_root =
     Ptr_raw 10 False ''X'' (Some 100) None
       (Ptr_raw 50 True ''Y'' (Some 200) None
         (operator_new 200 8 ''t.cpp'' 2 (operator_new 100 8 ''t.cpp'' 1 instance0)))"

definition owner_teardown :: teardown where
  "owner_teardown T a s = (if T = ''X'' \<and> a = 100 then filter (\<lambda>h. h = 50) (pointers s) else [])"

section \<open>Basic facts\<close>

lemma map_of_modify:
  "map_of (map (\<lambda>(k, r). if P k then (k, f r) else (k, r)) xs) b =
     (if P b then map_option f (map_of xs b) else map_of xs b)"
  by (induction xs) auto

lemma find_info_modify_info:
  "find_info (modify_info a f s) b = (if b = a then map_option f (find_info s a) else find_info s b)"
  by (simp add: find_info_def modify_info_def map_of_modify)

lemma modify_info_frame [simp]:
  "pointers (modify_info a f s) = pointers s"
  "handles (modify_info a f s) = handles s"
  "currentMark (modify_info a f s) = currentMark s"
  "allocatedBytes (modify_info a f s) = allocatedBytes s"
  "released (modify_info a f s) = released s"
  "finalized (modify_info a f s) = finalized s"
  "get_ptr (modify_info a f s) h = get_ptr s h"
  by (simp_all add: modify_info_def get_ptr_def)

lemma mark_all_frame [simp]:
  "pointers (mark_all M s) = pointers s"
  "handles (mark_all M s) = handles s"
  "currentMark (mark_all M s) = currentMark s"
  "allocatedBytes (mark_all M s) = allocatedBytes s"
  "released (mark_all M s) = released s"
  "finalized (mark_all M s) = finalized s"
  "get_ptr (mark_all M s) h = get_ptr s h"
  by (simp_all add: mark_all_def get_ptr_def)

lemma find_info_mark_all:
  "find_info (mark_all M s) b =
     (if b \<in> M then map_option (\<lambda>r. r\<lparr>oi_mark := currentMark s\<rparr>) (find_info s b) else find_info s b)"
  by (simp add: find_info_def mark_all_def map_of_modify)

lemma mark_all_empty [simp]: "mark_all {} s = s"
  by (simp add: mark_all_def)

lemma map_mark_insert:
  "map (\<lambda>(k, r). if k = a then (k, r\<lparr>oi_mark := c\<rparr>) else (k, r))
     (map (\<lambda>(k, r). if k \<in> M then (k, r\<lparr>oi_mark := c\<rparr>) else (k, r)) xs) =
   map (\<lambda>(k, r). if k \<in> insert a M then (k, r\<lparr>oi_mark := c\<rparr>) else (k, r)) xs"
  by (induction xs) auto

lemma mark_all_insert:
  "modify_info a (\<lambda>r. r\<lparr>oi_mark := currentMark s\<rparr>) (mark_all M s) = mark_all (insert a M) s"
  by (simp add: mark_all_def modify_info_def map_mark_insert del: map_map)

lemma unmarked_mark_all: "unmarked (mark_all M s) = unmarked s - M"
  by (auto simp add: unmarked_def find_info_mark_all)

lemma finite_unmarked: "finite (unmarked s)"
proof -
  have "unmarked s \<subseteq> fst ` set (objects s)"
    by (auto simp add: unmarked_def find_info_def dest!: map_of_SomeD intro: rev_image_eqI)
  then show ?thesis
    by (rule finite_subset) simp
qed

lemma card_unmarked_le: "card (unmarked s) \<le> length (objects s)"
proof -
  have "unmarked s \<subseteq> fst ` set (objects s)"
    by (auto simp add: unmarked_def find_info_def dest!: map_of_SomeD intro: rev_image_eqI)
  then have "card (unmarked s) \<le> card (fst ` set (objects s))"
    by (intro card_mono) simp_all
  also have "\<dots> \<le> card (set (objects s))" by (rule card_image_le) simp
  also have "\<dots> \<le> length (objects s)" by (rule card_length)
  finally show ?thesis .
qed

lemma bound_to_mark_all [simp]: "bound_to (mark_all M s) h = bound_to s h"
  by (simp add: bound_to_def find_info_mark_all split: option.splits)

lemma IsRoot_mark_all [simp]: "IsRoot (mark_all M s) h = IsRoot s h"
  by (simp add: IsRoot_def)

lemma mark_scan_Cons:
  "mark_scan rec lo hi (p # ps) s =
     (case scan_target s lo hi p of
        None \<Rightarrow> mark_scan rec lo hi ps s
      | Some b \<Rightarrow> (case rec s b of None \<Rightarrow> None | Some s' \<Rightarrow> mark_scan rec lo hi ps s'))"
  by (auto simp add: scan_target_def bound_to_def unmarked_def split: option.splits)

lemma mark_roots_Cons:
  "mark_roots n (p # ps) s =
     (case root_target s p of
        None \<Rightarrow> mark_roots n ps s
      | Some a \<Rightarrow> (case MarkObject n s a of None \<Rightarrow> None | Some s' \<Rightarrow> mark_roots n ps s'))"
  by (simp add: root_target_def split: option.splits)

declare mark_scan.simps(2) [simp del] mark_roots.simps(2) [simp del]

lemma scan_target_mark_all:
  "scan_target (mark_all M s) lo hi p = Some b \<longleftrightarrow>
     lo \<le> p \<and> p < hi \<and> bound_to s p = Some b \<and> b \<in> unmarked s - M"
  by (auto simp add: scan_target_def unmarked_mark_all split: option.splits)

lemma root_target_mark_all [simp]: "root_target (mark_all M s) p = root_target s p"
  by (simp add: root_target_def)

text \<open>Marking only sets marks: every state it produces is the start state with a larger set marked.\<close>

lemma mark_scan_shape:
  assumes rec: "\<And>M b s'. rec (mark_all M s) b = Some s' \<Longrightarrow> \<exists>M'. s' = mark_all M' s \<and> M \<subseteq> M'"
  shows "mark_scan rec lo hi ps (mark_all M s) = Some s' \<Longrightarrow> \<exists>M'. s' = mark_all M' s \<and> M \<subseteq> M'"
proof (induction ps arbitrary: M)
  case Nil
  then show ?case by auto
next
  case (Cons p ps)
  show ?case
  proof (cases "scan_target (mark_all M s) lo hi p")
    case None
    with Cons show ?thesis by (simp add: mark_scan_Cons)
  next
    case (Some b)
    with Cons.prems obtain s1 where s1: "rec (mark_all M s) b = Some s1"
      and rest: "mark_scan rec lo hi ps s1 = Some s'"
      by (auto simp add: mark_scan_Cons split: option.splits)
    from rec [OF s1] obtain M1 where M1: "s1 = mark_all M1 s" "M \<subseteq> M1" by blast
    from rest M1 have "mark_scan rec lo hi ps (mark_all M1 s) = Some s'" by simp
    from Cons.IH [OF this] M1 show ?thesis by blast
  qed
qed

lemma MarkObject_shape:
  "MarkObject n (mark_all M s) a = Some s' \<Longrightarrow> \<exists>M'. s' = mark_all M' s \<and> M \<subseteq> M'"
proof (induction n arbitrary: M a s')
  case 0
  then show ?case by simp
next
  case (Suc n)
  show ?case
  proof (cases "find_info (mark_all M s) a")
    case None
    with Suc.prems show ?thesis by auto
  next
    case (Some r)
    with Suc.prems have scan:
      "mark_scan (MarkObject n) (oi_object r) (oi_object r + unat (oi_size r)) (pointers s)
         (mark_all (insert a M) s) = Some s'"
      by (simp add: mark_all_insert)
    have "\<exists>M'. s' = mark_all M' s \<and> insert a M \<subseteq> M'"
    proof (rule mark_scan_shape)
      show "\<exists>M'. s' = mark_all M' s \<and> M \<subseteq> M'" if "MarkObject n (mark_all M s) b = Some s'" for M b s'
        using that by (rule Suc.IH)
      show "mark_scan (MarkObject n) (oi_object r) (oi_object r + unat (oi_size r)) (pointers s)
         (mark_all (insert a M) s) = Some s'" by (fact scan)
    qed
    then show ?thesis by blast
  qed
qed

text \<open>Enough fuel: more than the number of unmarked records other than the one marked first.\<close>

lemma mark_scan_total:
  assumes rec: "\<And>M b. card (unmarked s - M - {b}) < n \<Longrightarrow> MarkObject n (mark_all M s) b \<noteq> None"
  shows "card (unmarked s - M) \<le> n \<Longrightarrow> mark_scan (MarkObject n) lo hi ps (mark_all M s) \<noteq> None"
proof (induction ps arbitrary: M)
  case Nil
  then show ?case by simp
next
  case (Cons p ps)
  show ?case
  proof (cases "scan_target (mark_all M s) lo hi p")
    case None
    with Cons show ?thesis by (simp add: mark_scan_Cons)
  next
    case (Some b)
    then have bU: "b \<in> unmarked s - M" by (simp add: scan_target_mark_all)
    have "card (unmarked s - M - {b}) < card (unmarked s - M)"
      using bU finite_unmarked [of s] by (intro card_Diff1_less) auto
    with Cons.prems have "card (unmarked s - M - {b}) < n" by simp
    from rec [OF this] obtain s1 where s1: "MarkObject n (mark_all M s) b = Some s1" by auto
    from MarkObject_shape [OF s1] obtain M1 where M1: "s1 = mark_all M1 s" "M \<subseteq> M1" by blast
    have "card (unmarked s - M1) \<le> card (unmarked s - M)"
      using M1(2) finite_unmarked [of s] by (intro card_mono) auto
    with Cons.prems have "card (unmarked s - M1) \<le> n" by simp
    from Cons.IH [OF this] Some s1 M1 show ?thesis by (simp add: mark_scan_Cons)
  qed
qed

lemma MarkObject_total:
  "card (unmarked s - M - {a}) < n \<Longrightarrow> MarkObject n (mark_all M s) a \<noteq> None"
proof (induction n arbitrary: M a)
  case 0
  then show ?case by simp
next
  case (Suc n)
  show ?case
  proof (cases "find_info (mark_all M s) a")
    case None
    then show ?thesis by simp
  next
    case (Some r)
    have "unmarked s - insert a M = unmarked s - M - {a}" by auto
    with Suc.prems have le: "card (unmarked s - insert a M) \<le> n" by simp
    have "mark_scan (MarkObject n) (oi_object r) (oi_object r + unat (oi_size r)) (pointers s)
         (mark_all (insert a M) s) \<noteq> None"
    proof (rule mark_scan_total)
      show "MarkObject n (mark_all M s) b \<noteq> None" if "card (unmarked s - M - {b}) < n" for M b
        using that by (rule Suc.IH)
      show "card (unmarked s - insert a M) \<le> n" by (fact le)
    qed
    with Some show ?thesis by (simp add: mark_all_insert)
  qed
qed


lemma mark_roots_total:
  "card (unmarked s) < n \<Longrightarrow> mark_roots n ps (mark_all M s) \<noteq> None"
proof (induction ps arbitrary: M)
  case Nil
  then show ?case by simp
next
  case (Cons p ps)
  show ?case
  proof (cases "root_target s p")
    case None
    with Cons show ?thesis by (simp add: mark_roots_Cons)
  next
    case (Some b)
    have "card (unmarked s - M - {b}) \<le> card (unmarked s)"
      using finite_unmarked [of s] by (intro card_mono) auto
    with Cons.prems have "card (unmarked s - M - {b}) < n" by simp
    from MarkObject_total [OF this] obtain s1 where s1: "MarkObject n (mark_all M s) b = Some s1" by auto
    from MarkObject_shape [OF s1] obtain M1 where M1: "s1 = mark_all M1 s" by blast
    from Cons.IH [OF Cons.prems] Some s1 M1 show ?thesis by (simp add: mark_roots_Cons)
  qed
qed

lemma CollectGarbage_total:
  "\<exists>res. CollectGarbage D (Suc (length (objects s))) s = Some res"
proof -
  let ?s0 = "s\<lparr>currentMark := \<not> currentMark s\<rparr>"
  have "card (unmarked ?s0) < Suc (length (objects s))"
    using card_unmarked_le [of ?s0] by simp
  from mark_roots_total [OF this, of "pointers ?s0" "{}"]
  show ?thesis by (auto simp add: CollectGarbage_def Let_def)
qed

lemma mark_scan_mono:
  assumes rec: "\<And>s b s'. rec s b = Some s' \<Longrightarrow> rec' s b = Some s'"
  shows "mark_scan rec lo hi ps s = Some s' \<Longrightarrow> mark_scan rec' lo hi ps s = Some s'"
proof (induction ps arbitrary: s)
  case Nil
  then show ?case by simp
next
  case (Cons p ps)
  then show ?case
    by (auto simp add: mark_scan_Cons rec split: option.splits)
qed

lemma MarkObject_Suc: "MarkObject n s a = Some s' \<Longrightarrow> MarkObject (Suc n) s a = Some s'"
proof (induction n arbitrary: s a s')
  case 0
  then show ?case by simp
next
  case (Suc n)
  show ?case
  proof (cases "find_info s a")
    case None
    with Suc.prems show ?thesis by simp
  next
    case (Some r)
    with Suc.prems have
      "mark_scan (MarkObject n) (oi_object r) (oi_object r + unat (oi_size r)) (pointers s)
         (modify_info a (\<lambda>r. r\<lparr>oi_mark := currentMark s\<rparr>) s) = Some s'"
      by simp
    then have
      "mark_scan (MarkObject (Suc n)) (oi_object r) (oi_object r + unat (oi_size r)) (pointers s)
         (modify_info a (\<lambda>r. r\<lparr>oi_mark := currentMark s\<rparr>) s) = Some s'"
      by (rule mark_scan_mono [rotated]) (rule Suc.IH)
    with Some show ?thesis by simp
  qed
qed

lemma MarkObject_mono: "n \<le> m \<Longrightarrow> MarkObject n s a = Some s' \<Longrightarrow> MarkObject m s a = Some s'"
  by (induction m) (auto simp add: le_Suc_eq MarkObject_Suc simp del: MarkObject.simps)

lemma mark_roots_mono:
  "n \<le> m \<Longrightarrow> mark_roots n ps s = Some s' \<Longrightarrow> mark_roots m ps s = Some s'"
proof (induction ps arbitrary: s)
  case Nil
  then show ?case by simp
next
  case (Cons p ps)
  then show ?case
    by (auto simp add: mark_roots_Cons MarkObject_mono split: option.splits)
qed

lemma CollectGarbage_mono:
  "n \<le> m \<Longrightarrow> CollectGarbage D n s = Some res \<Longrightarrow> CollectGarbage D m s = Some res"
  by (auto simp add: CollectGarbage_def Let_def split: option.splits dest: mark_roots_mono)

lemma closed_in_mono: "closed_in s X M \<Longrightarrow> M \<subseteq> M' \<Longrightarrow> closed_in s X M'"
  by (auto simp add: closed_in_def)

lemma closed_in_Un: "closed_in s X M \<Longrightarrow> closed_in s Y M \<Longrightarrow> closed_in s (X \<union> Y) M"
  by (auto simp add: closed_in_def)

lemma closed_in_subset: "closed_in s X M \<Longrightarrow> Y \<subseteq> X \<Longrightarrow> closed_in s Y M"
  by (auto simp add: closed_in_def)

text \<open>The loop over the handles, given that the recursive calls do what is expected of them.\<close>

lemma mark_scan_post:
  assumes rec: "\<And>M b s'. rec (mark_all M s) b = Some s' \<Longrightarrow> \<exists>M'. s' = mark_all M' s \<and> marked_from s M b M'"
  shows "mark_scan rec lo hi ps (mark_all M s) = Some s' \<Longrightarrow>
    \<exists>M'. s' = mark_all M' s \<and> M \<subseteq> M'
      \<and> M' \<subseteq> M \<union> (edges s)\<^sup>* `` {b. \<exists>p \<in> set ps. lo \<le> p \<and> p < hi \<and> bound_to s p = Some b}
      \<and> (\<forall>p \<in> set ps. \<forall>b. lo \<le> p \<and> p < hi \<and> bound_to s p = Some b \<longrightarrow> b \<in> M' \<or> b \<notin> unmarked s)
      \<and> closed_in s (M' - M) M'"
proof (induction ps arbitrary: M)
  case Nil
  then have "s' = mark_all M s" by simp
  then show ?case by (auto simp add: closed_in_def)
next
  case (Cons p ps)
  show ?case
  proof (cases "scan_target (mark_all M s) lo hi p")
    case None
    with Cons.prems have "mark_scan rec lo hi ps (mark_all M s) = Some s'"
      by (simp add: mark_scan_Cons)
    from Cons.IH [OF this] obtain M' where M': "s' = mark_all M' s" "M \<subseteq> M'"
      "M' \<subseteq> M \<union> (edges s)\<^sup>* `` {b. \<exists>p \<in> set ps. lo \<le> p \<and> p < hi \<and> bound_to s p = Some b}"
      "\<forall>p \<in> set ps. \<forall>b. lo \<le> p \<and> p < hi \<and> bound_to s p = Some b \<longrightarrow> b \<in> M' \<or> b \<notin> unmarked s"
      "closed_in s (M' - M) M'"
      by blast
    have here: "b \<in> M' \<or> b \<notin> unmarked s" if "lo \<le> p" "p < hi" "bound_to s p = Some b" for b
    proof -
      from None that have "b \<notin> unmarked s - M"
        using scan_target_mark_all [of M s lo hi p b] by simp
      with M'(2) show ?thesis by auto
    qed
    have "M' \<subseteq> M \<union> (edges s)\<^sup>* `` {b. \<exists>p \<in> set (p # ps). lo \<le> p \<and> p < hi \<and> bound_to s p = Some b}"
      using M'(3) by (rule subset_trans) (auto intro!: Image_mono)
    moreover have "\<forall>q \<in> set (p # ps). \<forall>b. lo \<le> q \<and> q < hi \<and> bound_to s q = Some b \<longrightarrow> b \<in> M' \<or> b \<notin> unmarked s"
      using M'(4) here by auto
    ultimately show ?thesis using M'(1,2,5) by blast
  next
    case (Some b)
    then have b: "lo \<le> p" "p < hi" "bound_to s p = Some b" "b \<in> unmarked s - M"
      by (simp_all add: scan_target_mark_all)
    from Some Cons.prems obtain s1 where s1: "rec (mark_all M s) b = Some s1"
      and rest: "mark_scan rec lo hi ps s1 = Some s'"
      by (auto simp add: mark_scan_Cons split: option.splits)
    from rec [OF s1] obtain M1 where M1: "s1 = mark_all M1 s" "marked_from s M b M1" by blast
    from b(4) have reg: "find_info s b \<noteq> None" by (auto simp add: unmarked_def)
    from M1(2) reg have M1': "M \<subseteq> M1" "b \<in> M1" "M1 \<subseteq> M \<union> (edges s)\<^sup>* `` {b}"
      "closed_in s (M1 - M) M1"
      by (auto simp add: marked_from_def elim: closed_in_subset)
    from rest M1 have "mark_scan rec lo hi ps (mark_all M1 s) = Some s'" by simp
    from Cons.IH [OF this] obtain M' where M': "s' = mark_all M' s" "M1 \<subseteq> M'"
      "M' \<subseteq> M1 \<union> (edges s)\<^sup>* `` {b. \<exists>p \<in> set ps. lo \<le> p \<and> p < hi \<and> bound_to s p = Some b}"
      "\<forall>p \<in> set ps. \<forall>b. lo \<le> p \<and> p < hi \<and> bound_to s p = Some b \<longrightarrow> b \<in> M' \<or> b \<notin> unmarked s"
      "closed_in s (M' - M1) M'"
      by blast
    have sub: "M' \<subseteq> M \<union> (edges s)\<^sup>* `` {b. \<exists>p \<in> set (p # ps). lo \<le> p \<and> p < hi \<and> bound_to s p = Some b}"
    proof
      fix x assume "x \<in> M'"
      with M'(3) M1'(3) consider "x \<in> M" | "x \<in> (edges s)\<^sup>* `` {b}"
        | "x \<in> (edges s)\<^sup>* `` {b. \<exists>p \<in> set ps. lo \<le> p \<and> p < hi \<and> bound_to s p = Some b}"
        by blast
      then show "x \<in> M \<union> (edges s)\<^sup>* `` {b. \<exists>p \<in> set (p # ps). lo \<le> p \<and> p < hi \<and> bound_to s p = Some b}"
      proof cases
        case 1
        then show ?thesis by simp
      next
        case 2
        with b show ?thesis by auto
      next
        case 3
        then show ?thesis by auto
      qed
    qed
    have tg: "\<forall>q \<in> set (p # ps). \<forall>c. lo \<le> q \<and> q < hi \<and> bound_to s q = Some c \<longrightarrow> c \<in> M' \<or> c \<notin> unmarked s"
      using M'(4) b(3) M1'(2) M'(2) by auto
    have "closed_in s (M1 - M) M'" using M1'(4) M'(2) by (rule closed_in_mono)
    with M'(5) have "closed_in s ((M' - M1) \<union> (M1 - M)) M'" by (rule closed_in_Un)
    then have cl: "closed_in s (M' - M) M'" by (rule closed_in_subset) auto
    from M'(1) M1'(1) M'(2) sub tg cl show ?thesis by blast
  qed
qed

lemma embedded_mark_all:
  "find_info (mark_all M s) a = Some r \<Longrightarrow> (oi_object r \<le> p \<and> p < oi_object r + unat (oi_size r)) = embedded s a p"
  by (auto simp add: embedded_def in_range_def find_info_mark_all split: option.splits if_splits)

lemma MarkObject_post:
  "MarkObject n (mark_all M s) a = Some s' \<Longrightarrow> \<exists>M'. s' = mark_all M' s \<and> marked_from s M a M'"
proof (induction n arbitrary: M a s')
  case 0
  then show ?case by simp
next
  case (Suc n)
  show ?case
  proof (cases "find_info (mark_all M s) a")
    case None
    then have unreg: "find_info s a = None" by (simp add: find_info_mark_all split: if_splits)
    then have "\<And>y. (a, y) \<notin> edges s" by (simp add: edges_def embedded_def)
    then have "marked_from s M a M" using unreg by (auto simp add: marked_from_def closed_in_def)
    with None Suc.prems show ?thesis by auto
  next
    case (Some r)
    let ?lo = "oi_object r" and ?hi = "oi_object r + unat (oi_size r)"
    from Some Suc.prems have scan:
      "mark_scan (MarkObject n) ?lo ?hi (pointers s) (mark_all (insert a M) s) = Some s'"
      by (simp add: mark_all_insert)
    have "\<exists>M'. s' = mark_all M' s \<and> insert a M \<subseteq> M'
      \<and> M' \<subseteq> insert a M \<union> (edges s)\<^sup>* `` {b. \<exists>p \<in> set (pointers s). ?lo \<le> p \<and> p < ?hi \<and> bound_to s p = Some b}
      \<and> (\<forall>p \<in> set (pointers s). \<forall>b. ?lo \<le> p \<and> p < ?hi \<and> bound_to s p = Some b \<longrightarrow> b \<in> M' \<or> b \<notin> unmarked s)
      \<and> closed_in s (M' - insert a M) M'"
    proof (rule mark_scan_post)
      show "\<exists>M'. s' = mark_all M' s \<and> marked_from s M b M'"
        if "MarkObject n (mark_all M s) b = Some s'" for M b s'
        using that by (rule Suc.IH)
      show "mark_scan (MarkObject n) ?lo ?hi (pointers s) (mark_all (insert a M) s) = Some s'"
        by (fact scan)
    qed
    then obtain M' where M': "s' = mark_all M' s" "insert a M \<subseteq> M'"
      "M' \<subseteq> insert a M \<union> (edges s)\<^sup>* `` {b. \<exists>p \<in> set (pointers s). ?lo \<le> p \<and> p < ?hi \<and> bound_to s p = Some b}"
      "\<forall>p \<in> set (pointers s). \<forall>b. ?lo \<le> p \<and> p < ?hi \<and> bound_to s p = Some b \<longrightarrow> b \<in> M' \<or> b \<notin> unmarked s"
      "closed_in s (M' - insert a M) M'"
      by blast
    note emb = embedded_mark_all [OF Some]
    have succ: "{b. \<exists>p \<in> set (pointers s). ?lo \<le> p \<and> p < ?hi \<and> bound_to s p = Some b} = edges s `` {a}"
      by (auto simp add: edges_def emb [symmetric])
    have "(edges s)\<^sup>* `` (edges s `` {a}) \<subseteq> (edges s)\<^sup>* `` {a}"
      by (auto intro: converse_rtrancl_into_rtrancl)
    with M'(3) succ have sub: "M' \<subseteq> M \<union> (edges s)\<^sup>* `` {a}" by auto
    have "closed_in s {a} M'"
      unfolding closed_in_def
    proof (intro ballI allI impI)
      fix x y assume "x \<in> {a}" "(x, y) \<in> edges s"
      then have "y \<in> edges s `` {a}" by auto
      with succ obtain p where "p \<in> set (pointers s)" "?lo \<le> p \<and> p < ?hi \<and> bound_to s p = Some y"
        by blast
      with M'(4) show "y \<in> M' \<or> y \<notin> unmarked s" by blast
    qed
    with M'(5) have "closed_in s ((M' - insert a M) \<union> {a}) M'" by (rule closed_in_Un)
    then have "closed_in s (insert a (M' - M)) M'" by (rule closed_in_subset) auto
    with M'(1,2) sub have "s' = mark_all M' s \<and> marked_from s M a M'"
      by (auto simp add: marked_from_def)
    then show ?thesis by blast
  qed
qed

lemma mark_roots_post:
  "mark_roots n ps (mark_all M s) = Some s' \<Longrightarrow>
    \<exists>M'. s' = mark_all M' s \<and> M \<subseteq> M'
      \<and> M' \<subseteq> M \<union> (edges s)\<^sup>* `` {a. \<exists>p \<in> set ps. root_target s p = Some a}
      \<and> (\<forall>p \<in> set ps. \<forall>a. root_target s p = Some a \<and> find_info s a \<noteq> None \<longrightarrow> a \<in> M')
      \<and> closed_in s (M' - M) M'"
proof (induction ps arbitrary: M)
  case Nil
  then have "s' = mark_all M s" by simp
  then show ?case by (auto simp add: closed_in_def)
next
  case (Cons p ps)
  show ?case
  proof (cases "root_target s p")
    case None
    with Cons.prems have "mark_roots n ps (mark_all M s) = Some s'"
      by (simp add: mark_roots_Cons)
    from Cons.IH [OF this] obtain M' where M': "s' = mark_all M' s" "M \<subseteq> M'"
      "M' \<subseteq> M \<union> (edges s)\<^sup>* `` {a. \<exists>p \<in> set ps. root_target s p = Some a}"
      "\<forall>p \<in> set ps. \<forall>a. root_target s p = Some a \<and> find_info s a \<noteq> None \<longrightarrow> a \<in> M'"
      "closed_in s (M' - M) M'"
      by blast
    have "M' \<subseteq> M \<union> (edges s)\<^sup>* `` {a. \<exists>p \<in> set (p # ps). root_target s p = Some a}"
      using M'(3) by (rule subset_trans) (auto intro!: Image_mono)
    moreover have "\<forall>q \<in> set (p # ps). \<forall>a. root_target s q = Some a \<and> find_info s a \<noteq> None \<longrightarrow> a \<in> M'"
      using M'(4) None by auto
    ultimately show ?thesis using M'(1,2,5) by blast
  next
    case (Some b)
    with Cons.prems obtain s1 where s1: "MarkObject n (mark_all M s) b = Some s1"
      and rest: "mark_roots n ps s1 = Some s'"
      by (auto simp add: mark_roots_Cons split: option.splits)
    from MarkObject_post [OF s1] obtain M1 where M1: "s1 = mark_all M1 s" "marked_from s M b M1" by blast
    from M1(2) have M1': "M \<subseteq> M1" "find_info s b \<noteq> None \<longrightarrow> b \<in> M1" "M1 \<subseteq> M \<union> (edges s)\<^sup>* `` {b}"
      "closed_in s (M1 - M) M1"
      by (auto simp add: marked_from_def elim: closed_in_subset)
    from rest M1 have "mark_roots n ps (mark_all M1 s) = Some s'" by simp
    from Cons.IH [OF this] obtain M' where M': "s' = mark_all M' s" "M1 \<subseteq> M'"
      "M' \<subseteq> M1 \<union> (edges s)\<^sup>* `` {a. \<exists>p \<in> set ps. root_target s p = Some a}"
      "\<forall>p \<in> set ps. \<forall>a. root_target s p = Some a \<and> find_info s a \<noteq> None \<longrightarrow> a \<in> M'"
      "closed_in s (M' - M1) M'"
      by blast
    have sub: "M' \<subseteq> M \<union> (edges s)\<^sup>* `` {a. \<exists>p \<in> set (p # ps). root_target s p = Some a}"
    proof
      fix x assume "x \<in> M'"
      with M'(3) M1'(3) consider "x \<in> M" | "x \<in> (edges s)\<^sup>* `` {b}"
        | "x \<in> (edges s)\<^sup>* `` {a. \<exists>p \<in> set ps. root_target s p = Some a}"
        by blast
      then show "x \<in> M \<union> (edges s)\<^sup>* `` {a. \<exists>p \<in> set (p # ps). root_target s p = Some a}"
      proof cases
        case 1
        then show ?thesis by simp
      next
        case 2
        with Some show ?thesis by auto
      next
        case 3
        then show ?thesis by auto
      qed
    qed
    have tg: "\<forall>q \<in> set (p # ps). \<forall>a. root_target s q = Some a \<and> find_info s a \<noteq> None \<longrightarrow> a \<in> M'"
      using M'(4) Some M1'(2) M'(2) by auto
    have "closed_in s (M1 - M) M'" using M1'(4) M'(2) by (rule closed_in_mono)
    with M'(5) have "closed_in s ((M' - M1) \<union> (M1 - M)) M'" by (rule closed_in_Un)
    then have cl: "closed_in s (M' - M) M'" by (rule closed_in_subset) auto
    from M'(1) M1'(1) M'(2) sub tg cl show ?thesis by blast
  qed
qed

subsection \<open>The mark phase marks the reachable records\<close>

lemma root_target_bound:
  "{a. \<exists>p \<in> set (pointers s). root_target s p = Some a \<and> find_info s a \<noteq> None} = root_targets s"
  by (auto simp add: root_targets_def root_target_def bound_to_def split: option.splits if_splits)

lemma edges_registered: "(a, b) \<in> edges s \<Longrightarrow> find_info s a \<noteq> None \<and> find_info s b \<noteq> None"
  by (auto simp add: edges_def embedded_def bound_to_def split: option.splits)

lemma edges_rtrancl_unregistered:
  "(a, b) \<in> (edges s)\<^sup>* \<Longrightarrow> find_info s a = None \<Longrightarrow> b = a"
  by (induction rule: converse_rtrancl_induct) (auto dest: edges_registered)

lemma reach_registered: "a \<in> reach s \<Longrightarrow> find_info s a \<noteq> None"
proof -
  assume "a \<in> reach s"
  then obtain x where x: "x \<in> root_targets s" "(x, a) \<in> (edges s)\<^sup>*" by (auto simp add: reach_def)
  from x(2) x(1) show ?thesis
    by (induction rule: rtrancl_induct)
      (auto simp add: root_targets_def bound_to_def dest: edges_registered split: option.splits)
qed

lemma mark_roots_reach:
  assumes un: "\<And>a r. find_info s a = Some r \<Longrightarrow> oi_mark r \<noteq> currentMark s"
    and run: "mark_roots n (pointers s) s = Some s'"
  shows "s' = mark_all (reach s) s"
proof -
  from run have "mark_roots n (pointers s) (mark_all {} s) = Some s'" by simp
  from mark_roots_post [OF this] obtain M where M: "s' = mark_all M s"
    "M \<subseteq> (edges s)\<^sup>* `` {a. \<exists>p \<in> set (pointers s). root_target s p = Some a}"
    "\<forall>p \<in> set (pointers s). \<forall>a. root_target s p = Some a \<and> find_info s a \<noteq> None \<longrightarrow> a \<in> M"
    "closed_in s M M"
    by auto
  have keys: "unmarked s = {a. find_info s a \<noteq> None}"
    using un by (auto simp add: unmarked_def)
  have roots: "root_targets s \<subseteq> M"
    using M(3) by (auto simp add: root_target_bound [symmetric])
  have "reach s \<subseteq> M"
  proof
    fix a assume "a \<in> reach s"
    then obtain x where x: "x \<in> root_targets s" "(x, a) \<in> (edges s)\<^sup>*" by (auto simp add: reach_def)
    from x(2) show "a \<in> M"
    proof (induction rule: rtrancl_induct)
      case base
      from x(1) roots show ?case by auto
    next
      case (step y z)
      from step(2) have "z \<in> unmarked s" by (auto simp add: keys dest: edges_registered)
      with M(4) step show ?case by (auto simp add: closed_in_def)
    qed
  qed
  moreover have "mark_all M s = mark_all (M \<inter> {a. find_info s a \<noteq> None}) s"
    unfolding mark_all_def find_info_def
    by (auto intro!: arg_cong [where f = "\<lambda>xs. s\<lparr>objects := xs\<rparr>"] simp add: map_of_eq_None_iff rev_image_eqI)
  moreover have "M \<inter> {a. find_info s a \<noteq> None} \<subseteq> reach s"
  proof
    fix a assume a: "a \<in> M \<inter> {a. find_info s a \<noteq> None}"
    with M(2) obtain x p where x: "p \<in> set (pointers s)" "root_target s p = Some x" "(x, a) \<in> (edges s)\<^sup>*"
      by auto
    have "find_info s x \<noteq> None"
    proof
      assume "find_info s x = None"
      with x(3) have "a = x" by (rule edges_rtrancl_unregistered)
      with a \<open>find_info s x = None\<close> show False by simp
    qed
    with x(1,2) have "x \<in> root_targets s" by (auto simp add: root_target_bound [symmetric])
    with x(3) show "a \<in> reach s" by (auto simp add: reach_def)
  qed
  moreover have "mark_all (reach s) s = mark_all (reach s \<inter> {a. find_info s a \<noteq> None}) s"
    unfolding mark_all_def find_info_def
    by (auto intro!: arg_cong [where f = "\<lambda>xs. s\<lparr>objects := xs\<rparr>"] simp add: map_of_eq_None_iff rev_image_eqI)
  ultimately have "mark_all M s = mark_all (reach s) s"
    using reach_registered [of _ s]
    by (metis (no_types, lifting) Int_absorb2 inf.absorb_iff2 inf_assoc inf_commute subset_antisym subsetI mem_Collect_eq)
  with M(1) show ?thesis by simp
qed

subsection \<open>What the handle operations leave unchanged\<close>

lemma modify_ptr_frame [simp]:
  "objects (modify_ptr h f s) = objects s"
  "pointers (modify_ptr h f s) = pointers s"
  "currentMark (modify_ptr h f s) = currentMark s"
  "allocatedBytes (modify_ptr h f s) = allocatedBytes s"
  "released (modify_ptr h f s) = released s"
  "finalized (modify_ptr h f s) = finalized s"
  "find_info (modify_ptr h f s) a = find_info s a"
  by (simp_all add: modify_ptr_def find_info_def split: option.splits)

lemma handles_modify_ptr:
  "handles (modify_ptr h f s) = (handles s)(h := map_option f (handles s h))"
  by (auto simp add: modify_ptr_def split: option.splits)

lemma MarkInvalid_frame [simp]:
  "objects (MarkInvalid h s) = objects s"
  "pointers (MarkInvalid h s) = pointers s"
  "currentMark (MarkInvalid h s) = currentMark s"
  "allocatedBytes (MarkInvalid h s) = allocatedBytes s"
  "released (MarkInvalid h s) = released s"
  "finalized (MarkInvalid h s) = finalized s"
  "find_info (MarkInvalid h s) a = find_info s a"
  by (simp_all add: MarkInvalid_def)

lemma fold_MarkInvalid_frame [simp]:
  "objects (fold MarkInvalid hs s) = objects s"
  "pointers (fold MarkInvalid hs s) = pointers s"
  "currentMark (fold MarkInvalid hs s) = currentMark s"
  "allocatedBytes (fold MarkInvalid hs s) = allocatedBytes s"
  "released (fold MarkInvalid hs s) = released s"
  "finalized (fold MarkInvalid hs s) = finalized s"
  "find_info (fold MarkInvalid hs s) a = find_info s a"
  by (induction hs arbitrary: s) simp_all

lemma after_unbind_frame [simp]:
  "pointers (after_unbind h s) = pointers s"
  "handles (after_unbind h s) = handles s"
  "currentMark (after_unbind h s) = currentMark s"
  "allocatedBytes (after_unbind h s) = allocatedBytes s"
  "released (after_unbind h s) = released s"
  "finalized (after_unbind h s) = finalized s"
  "get_ptr (after_unbind h s) h' = get_ptr s h'"
  by (simp_all add: after_unbind_def split: option.splits)

lemma after_dtor_frame [simp]:
  "pointers (after_dtor h s) = remove1 h (pointers s)"
  "handles (after_dtor h s) = (handles s)(h := None)"
  "currentMark (after_dtor h s) = currentMark s"
  "allocatedBytes (after_dtor h s) = allocatedBytes s"
  "released (after_dtor h s) = released s"
  "finalized (after_dtor h s) = finalized s"
  "objects (after_dtor h s) = objects (after_unbind h s)"
  by (simp_all add: after_dtor_def Let_def)

lemma fold_after_dtor_frame [simp]:
  "currentMark (fold after_dtor hs s) = currentMark s"
  "allocatedBytes (fold after_dtor hs s) = allocatedBytes s"
  "released (fold after_dtor hs s) = released s"
  "finalized (fold after_dtor hs s) = finalized s"
  by (induction hs arbitrary: s) simp_all

subsection \<open>An operation that returns, returns the state given for it\<close>

lemma unbind_Inr:
  assumes "unbind this s = Inr s1"
  shows "s1 = after_unbind this s" and "handles s this \<noteq> None"
  using assms
  by (auto simp add: unbind_def after_unbind_def get_ptr_def split: option.splits)

lemma unbind_Inl: "unbind this s = Inl e \<Longrightarrow> e = WildPointer"
  by (auto simp add: unbind_def split: option.splits)

lemma unbind_defined:
  assumes "handles s this \<noteq> None"
    and "\<And>a. ptr_info (get_ptr s this) = Some a \<Longrightarrow> find_info s a \<noteq> None"
  shows "unbind this s = Inr (after_unbind this s)"
  using assms
  by (auto simp add: unbind_def after_unbind_def get_ptr_def split: option.splits)

lemma Ptr_dtor_Inr:
  assumes "Ptr_dtor this s = Inr s'"
  shows "s' = after_dtor this s" and "handles s this \<noteq> None"
proof -
  from assms obtain s1 where s1: "unbind this s = Inr s1"
    and s': "s' = s1\<lparr>pointers := remove1 this (pointers s1), handles := (handles s1)(this := None)\<rparr>"
    by (auto simp add: Ptr_dtor_def split: sum.splits)
  from unbind_Inr [OF s1] s' show "s' = after_dtor this s" and "handles s this \<noteq> None"
    by (simp_all add: after_dtor_def Let_def)
qed

lemma Ptr_dtor_Inl: "Ptr_dtor this s = Inl e \<Longrightarrow> e = WildPointer"
  by (auto simp add: Ptr_dtor_def split: sum.splits dest: unbind_Inl)

lemma Ptr_dtor_defined:
  assumes "handles s this \<noteq> None"
    and "\<And>a. ptr_info (get_ptr s this) = Some a \<Longrightarrow> find_info s a \<noteq> None"
  shows "Ptr_dtor this s = Inr (after_dtor this s)"
  by (simp add: Ptr_dtor_def unbind_defined [OF assms] after_dtor_def Let_def)



lemma find_info_after_unbind_iff: "find_info (after_unbind this s) a = None \<longleftrightarrow> find_info s a = None"
  by (simp add: after_unbind_def find_info_modify_info split: option.splits)


lemma Ptr_assign_defined:
  assumes "handles s this \<noteq> None" and "handles s other \<noteq> None"
    and "\<And>a. ptr_info (get_ptr s this) = Some a \<Longrightarrow> find_info s a \<noteq> None"
    and "\<And>a. ptr_info (get_ptr s other) = Some a \<Longrightarrow> find_info s a \<noteq> None"
  shows "Ptr_assign this other s = Inr (after_assign this other s)"
proof -
  note u = unbind_defined [OF assms(1,3)]
  obtain p where p: "handles s other = Some p" using assms(2) by auto
  then have g: "get_ptr (after_unbind this s) other = p" "get_ptr s other = p"
    by (simp_all add: get_ptr_def)
  have f: "find_info (after_unbind this s) a \<noteq> None" if "ptr_info p = Some a" for a
    using assms(4) [of a] that g(2) by (simp add: find_info_after_unbind_iff)
  show ?thesis
  proof (cases "ptr_info p")
    case None
    with p g show ?thesis by (simp add: Ptr_assign_def u after_assign_def Let_def)
  next
    case (Some a)
    with f [of a] obtain r where "find_info (after_unbind this s) a = Some r" by auto
    then have "find_info (modify_ptr this (\<lambda>q. q\<lparr>ptr_object := ptr_object p, ptr_info := Some a\<rparr>)
        (after_unbind this s)) a = Some r"
      by (simp add: find_info_def modify_ptr_def split: option.splits)
    with Some p g show ?thesis by (simp add: Ptr_assign_def u after_assign_def Let_def)
  qed
qed


lemma Ptr_assign_raw_defined:
  assumes "handles s this \<noteq> None"
    and "\<And>a. ptr_info (get_ptr s this) = Some a \<Longrightarrow> find_info s a \<noteq> None"
  shows "Ptr_assign_raw this T other s = Inr (after_assign_raw this T other s)"
  by (simp add: Ptr_assign_raw_def unbind_defined [OF assms] after_assign_raw_def Let_def)

lemma destroy_handles_Inr: "destroy_handles hs s = Inr s' \<Longrightarrow> s' = fold after_dtor hs s"
  by (induction hs arbitrary: s) (auto split: sum.splits dest: Ptr_dtor_Inr(1))

lemma destroy_handles_Inl: "destroy_handles hs s = Inl e \<Longrightarrow> e = WildPointer"
  by (induction hs arbitrary: s) (auto split: sum.splits dest: Ptr_dtor_Inl)

subsection \<open>The skeleton of the record table\<close>

lemma skeleton_frame [simp]:
  "skeleton (s\<lparr>handles := hs\<rparr>) = skeleton s"
  "skeleton (s\<lparr>pointers := ps\<rparr>) = skeleton s"
  "skeleton (s\<lparr>allocatedBytes := n\<rparr>) = skeleton s"
  "skeleton (s\<lparr>released := rs\<rparr>) = skeleton s"
  "skeleton (s\<lparr>finalized := fs\<rparr>) = skeleton s"
  by (simp_all add: skeleton_def)

lemma skeleton_modify_info:
  assumes "\<And>r. (f r)\<lparr>oi_pointers := []\<rparr> = r\<lparr>oi_pointers := []\<rparr>"
  shows "skeleton (modify_info a f s) = skeleton s"
  by (auto simp add: skeleton_def modify_info_def assms)

lemma skeleton_after_unbind [simp]: "skeleton (after_unbind h s) = skeleton s"
  by (simp add: after_unbind_def skeleton_modify_info split: option.splits)

lemma skeleton_modify_ptr [simp]: "skeleton (modify_ptr h f s) = skeleton s"
  by (simp add: skeleton_def)

lemma skeleton_MarkInvalid [simp]: "skeleton (MarkInvalid h s) = skeleton s"
  by (simp add: skeleton_def)

lemma skeleton_fold_MarkInvalid [simp]: "skeleton (fold MarkInvalid hs s) = skeleton s"
  by (simp add: skeleton_def)

lemma skeleton_after_dtor [simp]: "skeleton (after_dtor h s) = skeleton s"
proof -
  have "skeleton (after_dtor h s) = skeleton (after_unbind h s)" by (simp add: skeleton_def)
  then show ?thesis by simp
qed

lemma skeleton_fold_after_dtor [simp]: "skeleton (fold after_dtor hs s) = skeleton s"
  by (induction hs arbitrary: s) simp_all

lemma map_of_skeleton:
  "map_of (skeleton s) a = map_option (\<lambda>r. r\<lparr>oi_pointers := []\<rparr>) (find_info s a)"
  by (simp add: skeleton_def find_info_def map_of_map)

lemma keys_skeleton: "map fst (skeleton s) = map fst (objects s)"
  by (simp add: skeleton_def split_def)

lemma skeleton_erase:
  "skeleton (s\<lparr>objects := map_erase a (objects s)\<rparr>) = map_erase a (skeleton s)"
  by (simp add: skeleton_def map_erase_def filter_map o_def split_def)

lemma skeleton_eq_find:
  assumes "skeleton s' = skeleton s"
  shows "map_option (\<lambda>r. r\<lparr>oi_pointers := []\<rparr>) (find_info s' a) = map_option (\<lambda>r. r\<lparr>oi_pointers := []\<rparr>) (find_info s a)"
  using assms by (simp add: map_of_skeleton [symmetric])

subsection \<open>The sweep\<close>

lemma map_of_filter_keys:
  "map_of (filter (\<lambda>(k, r). k \<notin> A) xs) a = (if a \<in> A then None else map_of xs a)"
  by (induction xs) auto

lemma map_erase_absent: "map_of xs a = None \<Longrightarrow> map_erase a xs = xs"
  by (induction xs) (auto simp add: map_erase_def split: if_splits)

lemma map_of_map_erase: "map_of (map_erase a xs) b = (if b = a then None else map_of xs b)"
  by (induction xs) (auto simp add: map_erase_def)

lemma map_erase_filter_keys:
  "filter (\<lambda>(k, r). k \<notin> A) (map_erase a xs) = filter (\<lambda>(k, r). k \<notin> insert a A) xs"
  by (induction xs) (auto simp add: map_erase_def)

lemma find_info_None_skeleton: "find_info s a = None \<longleftrightarrow> map_of (skeleton s) a = None"
  by (simp add: map_of_skeleton)

lemma skeleton_objects_erase:
  "objects t = map_erase a (objects u) \<Longrightarrow> skeleton t = map_erase a (skeleton u)"
  by (simp add: skeleton_def map_erase_def filter_map o_def split_def)

lemma sweep_object_cases:
  assumes "sweep_object D a s = Inr s'"
  obtains (absent) "find_info s a = None" "s' = s"
  | (swept) r T s2 r2 hs where "find_info s a = Some r" "oi_destroy r = Some T"
      "s2 = fold after_dtor hs
              (s\<lparr>allocatedBytes := allocatedBytes s - oi_size r, finalized := finalized s @ [a]\<rparr>)"
      "find_info s2 a = Some r2"
      "s' = (fold MarkInvalid (oi_pointers r2) (s2\<lparr>released := released s2 @ [Some a]\<rparr>))
              \<lparr>objects := map_erase a (objects s2)\<rparr>"
      "hs = D T a (s\<lparr>allocatedBytes := allocatedBytes s - oi_size r\<rparr>)"
proof (cases "find_info s a")
  case None
  with assms have "s' = s" by (simp add: sweep_object_def)
  with None show ?thesis by (rule absent)
next
  case (Some r)
  let ?s1 = "s\<lparr>allocatedBytes := allocatedBytes s - oi_size r\<rparr>"
  from Some assms obtain T where T: "oi_destroy r = Some T"
    by (auto simp add: sweep_object_def Let_def split: option.splits)
  from Some T assms obtain s2 where d: "Destroy D T a ?s1 = Inr s2"
    by (auto simp add: sweep_object_def Let_def split: sum.splits)
  define hs where "hs = D T a ?s1"
  from d have "s2 = fold after_dtor hs (?s1\<lparr>finalized := finalized ?s1 @ [a]\<rparr>)"
    unfolding Destroy_def hs_def by (rule destroy_handles_Inr)
  then have s2: "s2 = fold after_dtor hs
      (s\<lparr>allocatedBytes := allocatedBytes s - oi_size r, finalized := finalized s @ [a]\<rparr>)"
    by simp
  have "skeleton s2 = skeleton s" by (simp add: s2)
  from skeleton_eq_find [OF this, of a] Some obtain r2 where r2: "find_info s2 a = Some r2"
    by auto
  have fi: "find_info (s2\<lparr>released := released s2 @ [Some a]\<rparr>) a = find_info s2 a"
    by (simp add: find_info_def)
  from assms Some T d r2 fi
  have "s' = (fold MarkInvalid (oi_pointers r2) (s2\<lparr>released := released s2 @ [Some a]\<rparr>))
              \<lparr>objects := map_erase a (objects s2)\<rparr>"
    by (simp add: sweep_object_def Let_def)
  with Some T s2 r2 show ?thesis using hs_def by (rule swept)
qed

lemma sweep_object_Inr:
  assumes "sweep_object D a s = Inr s'"
  shows "skeleton s' = map_erase a (skeleton s)"
    and "currentMark s' = currentMark s"
    and "finalized s' = (if find_info s a = None then finalized s else finalized s @ [a])"
    and "released s' = (if find_info s a = None then released s else released s @ [Some a])"
proof -
  have "skeleton s' = map_erase a (skeleton s) \<and> currentMark s' = currentMark s
      \<and> finalized s' = (if find_info s a = None then finalized s else finalized s @ [a])
      \<and> released s' = (if find_info s a = None then released s else released s @ [Some a])"
    using assms
  proof (cases rule: sweep_object_cases)
    case absent
    then show ?thesis by (simp add: map_erase_absent find_info_None_skeleton)
  next
    case (swept r T s2 r2 hs)
    have "objects s' = map_erase a (objects s2)" by (simp add: swept(5))
    then have "skeleton s' = map_erase a (skeleton s2)" by (rule skeleton_objects_erase)
    then show ?thesis by (simp add: swept(1,3,5))
  qed
  then show "skeleton s' = map_erase a (skeleton s)"
    and "currentMark s' = currentMark s"
    and "finalized s' = (if find_info s a = None then finalized s else finalized s @ [a])"
    and "released s' = (if find_info s a = None then released s else released s @ [Some a])"
    by simp_all
qed

text \<open>The sweep of a record ends in the fatal call exactly when the record has no
  finalizer; a failure of another kind comes from the destructor.\<close>

lemma sweep_object_fatal:
  "sweep_object D a s = Inl NullFinalizer \<longleftrightarrow> (\<exists>r. find_info s a = Some r \<and> oi_destroy r = None)"
  by (auto simp add: sweep_object_def Let_def Destroy_def split: option.splits sum.splits
      dest: destroy_handles_Inl)

lemma registered_iff_key: "find_info s a \<noteq> None \<longleftrightarrow> a \<in> fst ` set (objects s)"
  by (simp add: find_info_def map_of_eq_None_iff)

lemma keys_after_sweep_object:
  "sweep_object D a s = Inr s' \<Longrightarrow> find_info s' b = None \<longleftrightarrow> b = a \<or> find_info s b = None"
  by (drule sweep_object_Inr(1)) (simp add: find_info_None_skeleton map_of_map_erase)

lemma sweep_Inr:
  assumes "distinct as" "\<forall>a \<in> set as. find_info s a \<noteq> None" "sweep D as s = Inr s'"
  shows "skeleton s' = filter (\<lambda>(k, r). k \<notin> set as) (skeleton s)
    \<and> currentMark s' = currentMark s
    \<and> finalized s' = finalized s @ as
    \<and> released s' = released s @ map Some as"
  using assms
proof (induction as arbitrary: s)
  case Nil
  then show ?case by simp
next
  case (Cons a as)
  from Cons.prems(3) obtain s1 where s1: "sweep_object D a s = Inr s1" and rest: "sweep D as s1 = Inr s'"
    by (auto split: sum.splits)
  from Cons.prems(1,2) have reg: "\<forall>b \<in> set as. find_info s1 b \<noteq> None"
    by (auto simp add: keys_after_sweep_object [OF s1])
  from Cons.prems(1) have "distinct as" by simp
  from Cons.IH [OF this reg rest] sweep_object_Inr [OF s1] Cons.prems(2)
  show ?case by (simp add: map_erase_filter_keys)
qed

subsection \<open>The result of a collection\<close>

lemma find_info_currentMark [simp]: "find_info (s\<lparr>currentMark := c\<rparr>) a = find_info s a"
  by (simp add: find_info_def)

lemma get_ptr_currentMark [simp]: "get_ptr (s\<lparr>currentMark := c\<rparr>) h = get_ptr s h"
  by (simp add: get_ptr_def)

lemma bound_to_currentMark [simp]: "bound_to (s\<lparr>currentMark := c\<rparr>) h = bound_to s h"
  by (simp add: bound_to_def split: option.splits)

lemma embedded_currentMark [simp]: "embedded (s\<lparr>currentMark := c\<rparr>) a h = embedded s a h"
  by (simp add: embedded_def split: option.splits)

lemma reach_currentMark [simp]: "reach (s\<lparr>currentMark := c\<rparr>) = reach s"
  by (simp add: reach_def edges_def root_targets_def IsRoot_def)

lemma marks_ok_find: "marks_ok s \<Longrightarrow> find_info s a = Some r \<Longrightarrow> oi_mark r = currentMark s"
  by (auto simp add: marks_ok_def find_info_def dest!: map_of_SomeD)

lemma filter_unmarked_mark_all:
  assumes "\<forall>(k, r) \<in> set xs. oi_mark r \<noteq> c"
  shows "map fst (filter (\<lambda>(k, r). oi_mark r \<noteq> c)
      (map (\<lambda>(k, r). if k \<in> R then (k, r\<lparr>oi_mark := c\<rparr>) else (k, r)) xs)) =
    filter (\<lambda>a. a \<notin> R) (map fst xs)"
  using assms by (induction xs) auto

lemma freeObjects_mark_all:
  assumes "\<forall>(k, r) \<in> set (objects s). oi_mark r \<noteq> currentMark s"
  shows "freeObjects (mark_all R s) = filter (\<lambda>a. a \<notin> R) (map fst (objects s))"
proof -
  have obj: "objects (mark_all R s) =
      map (\<lambda>(k, r). if k \<in> R then (k, r\<lparr>oi_mark := currentMark s\<rparr>) else (k, r)) (objects s)"
    by (simp add: mark_all_def)
  have cm: "currentMark (mark_all R s) = currentMark s" by simp
  show ?thesis
    by (simp only: freeObjects_def obj cm filter_unmarked_mark_all [OF assms])
qed

lemma CollectGarbage_result:
  assumes "marks_ok s" and "CollectGarbage D n s = Some res"
  shows "res = sweep D (filter (\<lambda>a. a \<notin> reach s) (map fst (objects s))) (flipped s)"
proof -
  let ?s0 = "s\<lparr>currentMark := \<not> currentMark s\<rparr>"
  from assms(2) obtain s1 where s1: "mark_roots n (pointers ?s0) ?s0 = Some s1"
    and res: "res = sweep D (freeObjects s1) s1"
    by (auto simp add: CollectGarbage_def Let_def split: option.splits)
  have un: "oi_mark r \<noteq> currentMark ?s0" if "find_info ?s0 a = Some r" for a r
    using that marks_ok_find [OF assms(1), of a r] by simp
  from mark_roots_reach [OF un s1] have s1': "s1 = flipped s" by (simp add: flipped_def)
  have "\<forall>(k, r) \<in> set (objects ?s0). oi_mark r \<noteq> currentMark ?s0"
    using assms(1) by (auto simp add: marks_ok_def)
  from freeObjects_mark_all [OF this, of "reach s"]
  have "freeObjects s1 = filter (\<lambda>a. a \<notin> reach s) (map fst (objects s))"
    by (simp add: s1' flipped_def)
  with res s1' show ?thesis by simp
qed

lemma flipped_frame [simp]:
  "pointers (flipped s) = pointers s"
  "handles (flipped s) = handles s"
  "currentMark (flipped s) = (\<not> currentMark s)"
  "allocatedBytes (flipped s) = allocatedBytes s"
  "released (flipped s) = released s"
  "finalized (flipped s) = finalized s"
  "get_ptr (flipped s) h = get_ptr s h"
  by (simp_all add: flipped_def get_ptr_def)

lemma find_info_flipped:
  "find_info (flipped s) a =
     (if a \<in> reach s then map_option (\<lambda>r. r\<lparr>oi_mark := \<not> currentMark s\<rparr>) (find_info s a)
      else find_info s a)"
  by (simp add: flipped_def find_info_mark_all)

lemma keys_flipped [simp]: "map fst (objects (flipped s)) = map fst (objects s)"
  by (simp add: flipped_def mark_all_def split_def o_def)

subsection \<open>Consequences for a heap that satisfies the invariant\<close>

lemma heap_inv_parts:
  assumes "heap_inv s"
  shows "keys_ok s" "marks_ok s" "registry_ok s" "bound_ok s" "lists_ok s" "extents_ok s"
  using assms by (simp_all add: heap_inv_def)

lemma count_list_distinct: "distinct xs \<Longrightarrow> count_list xs a = (if a \<in> set xs then 1 else 0)"
  by (induction xs) auto

lemma count_list_map_Some: "count_list (map Some xs) (Some a) = count_list xs a"
  by (induction xs) auto

lemma registered_iff_key': "(\<exists>r. find_info s a = Some r) \<longleftrightarrow> a \<in> fst ` set (objects s)"
  using registered_iff_key [of s a] by auto

lemma in_objects_registered: "(a, r) \<in> set (objects s) \<Longrightarrow> \<exists>r'. find_info s a = Some r'"
  by (auto simp add: registered_iff_key' intro: rev_image_eqI)

lemma find_info_key: "find_info s a = Some r \<Longrightarrow> a \<in> fst ` set (objects s)"
  using registered_iff_key' [of s a] by auto

lemma filter_marked_mark_all:
  assumes "\<forall>(k, r) \<in> set xs. oi_mark r \<noteq> c"
  shows "map fst (filter (\<lambda>(k, r). oi_mark r = c)
      (map (\<lambda>(k, r). if k \<in> R then (k, r\<lparr>oi_mark := c\<rparr>) else (k, r)) xs)) =
    filter (\<lambda>a. a \<in> R) (map fst xs)"
  using assms
proof (induction xs)
  case Nil
  then show ?case by simp
next
  case (Cons x xs)
  obtain k r where x: "x = (k, r)" by (cases x)
  with Cons.prems have "oi_mark r \<noteq> c" by simp
  then show ?case using Cons by (cases "k \<in> R") (simp_all add: x)
qed

lemma marked_keys:
  assumes "\<forall>(k, r) \<in> set xs. oi_mark r \<noteq> c"
  shows "set (map fst (filter (\<lambda>(k, r). oi_mark r = c)
      (map (\<lambda>(k, r). if k \<in> R then (k, r\<lparr>oi_mark := c\<rparr>) else (k, r)) xs))) = R \<inter> fst ` set xs"
  by (simp only: filter_marked_mark_all [OF assms]) auto

lemma objects_mark_all_flip:
  "objects (mark_all R (s\<lparr>currentMark := c\<rparr>)) =
     map (\<lambda>(k, r). if k \<in> R then (k, r\<lparr>oi_mark := c\<rparr>) else (k, r)) (objects s)"
  by (simp add: mark_all_def case_prod_beta)

lemma reach_list_reach:
  assumes "marks_ok s" and "reach_list n s = Some xs"
  shows "reach s = set xs"
proof -
  let ?s0 = "s\<lparr>currentMark := \<not> currentMark s\<rparr>"
  from assms(2) obtain s1 where s1: "mark_roots n (pointers ?s0) ?s0 = Some s1"
    and xs: "xs = map fst (filter (\<lambda>(k, r). oi_mark r = currentMark s1) (objects s1))"
    by (auto simp add: reach_list_def split: option.splits)
  have un: "oi_mark r \<noteq> currentMark ?s0" if "find_info ?s0 a = Some r" for a r
    using that marks_ok_find [OF assms(1), of a r] by simp
  from mark_roots_reach [OF un s1] have s1': "s1 = flipped s" by (simp add: flipped_def)
  have all: "\<forall>(k, r) \<in> set (objects s). oi_mark r \<noteq> (\<not> currentMark s)"
    using assms(1) by (auto simp add: marks_ok_def)
  have obj: "objects s1 = map (\<lambda>(k, r). if k \<in> reach s then (k, r\<lparr>oi_mark := \<not> currentMark s\<rparr>) else (k, r)) (objects s)"
    and cm: "currentMark s1 = (\<not> currentMark s)"
    by (simp_all add: s1' flipped_def objects_mark_all_flip)
  have "set xs = reach s \<inter> fst ` set (objects s)"
    by (simp only: xs obj cm marked_keys [OF all])
  moreover have "reach s \<subseteq> fst ` set (objects s)"
  proof
    fix a assume "a \<in> reach s"
    then obtain r where "find_info s a = Some r" using reach_registered [of a s] by auto
    then show "a \<in> fst ` set (objects s)" by (rule find_info_key)
  qed
  ultimately show ?thesis by auto
qed

text \<open>The result of a collection that returns normally, for a heap that satisfies the
  invariant: the unreachable records are erased, finalized and released, in key order.\<close>

lemma CollectGarbage_Inr:
  assumes "keys_ok s" "marks_ok s" and "CollectGarbage D n s = Some (Inr s')"
  shows "sweep D (filter (\<lambda>a. a \<notin> reach s) (map fst (objects s))) (flipped s) = Inr s'"
    and "skeleton s' = filter (\<lambda>(k, r). k \<in> reach s) (skeleton (flipped s))"
    and "currentMark s' = (\<not> currentMark s)"
    and "finalized s' = finalized s @ filter (\<lambda>a. a \<notin> reach s) (map fst (objects s))"
    and "released s' = released s @ map Some (filter (\<lambda>a. a \<notin> reach s) (map fst (objects s)))"
proof -
  let ?as = "filter (\<lambda>a. a \<notin> reach s) (map fst (objects s))"
  from CollectGarbage_result [OF assms(2,3)]
  show sw: "sweep D ?as (flipped s) = Inr s'" by simp
  have d: "distinct ?as" using assms(1) by (simp add: keys_ok_def)
  have reg: "\<forall>a \<in> set ?as. find_info (flipped s) a \<noteq> None"
    by (auto simp add: find_info_flipped dest: in_objects_registered)
  note res = sweep_Inr [OF d reg sw]
  have "filter (\<lambda>(k, r). k \<notin> set ?as) (skeleton (flipped s)) =
      filter (\<lambda>(k, r). k \<in> reach s) (skeleton (flipped s))"
  proof (rule filter_cong [OF refl])
    fix x assume "x \<in> set (skeleton (flipped s))"
    then have "fst x \<in> set (map fst (skeleton (flipped s)))" by auto
    then have "fst x \<in> fst ` set (objects s)" by (simp add: keys_skeleton)
    then show "(case x of (k, r) \<Rightarrow> k \<notin> set ?as) = (case x of (k, r) \<Rightarrow> k \<in> reach s)"
      by (auto simp add: split_def)
  qed
  with res show "skeleton s' = filter (\<lambda>(k, r). k \<in> reach s) (skeleton (flipped s))" by simp
  from res show "currentMark s' = (\<not> currentMark s)" by simp
  from res show "finalized s' = finalized s @ ?as" by simp
  from res show "released s' = released s @ map Some ?as" by simp
qed

lemma map_of_filter_in_keys:
  "map_of (filter (\<lambda>(k, r). k \<in> A) xs) a = (if a \<in> A then map_of xs a else None)"
  by (induction xs) auto

lemma CollectGarbage_find:
  assumes "keys_ok s" "marks_ok s" and "CollectGarbage D n s = Some (Inr s')"
  shows "find_info s' a = None \<longleftrightarrow> a \<notin> reach s \<or> find_info s a = None"
  using CollectGarbage_Inr(2) [OF assms]
  by (simp add: find_info_None_skeleton map_of_filter_in_keys)
    (simp add: map_of_skeleton find_info_flipped)

lemma CollectGarbage_logs:
  assumes "keys_ok s" "marks_ok s" and "CollectGarbage D n s = Some (Inr s')"
    and "find_info s a \<noteq> None"
  shows "count_list (finalized s') a = count_list (finalized s) a + (if a \<in> reach s then 0 else 1)"
    and "count_list (released s') (Some a) = count_list (released s) (Some a) + (if a \<in> reach s then 0 else 1)"
proof -
  let ?as = "filter (\<lambda>a. a \<notin> reach s) (map fst (objects s))"
  have d: "distinct ?as" using assms(1) by (simp add: keys_ok_def)
  have "a \<in> set ?as \<longleftrightarrow> a \<notin> reach s" using assms(4) by (auto dest: find_info_key)
  then have c: "count_list ?as a = (if a \<in> reach s then 0 else 1)"
    by (simp add: count_list_distinct [OF d])
  show "count_list (finalized s') a = count_list (finalized s) a + (if a \<in> reach s then 0 else 1)"
    by (simp only: CollectGarbage_Inr(4) [OF assms(1-3)] count_list_append c)
  show "count_list (released s') (Some a) = count_list (released s) (Some a) + (if a \<in> reach s then 0 else 1)"
    by (simp only: CollectGarbage_Inr(5) [OF assms(1-3)] count_list_append count_list_map_Some c)
qed

lemma collect_observe_Inr:
  "collect_observe D n s = Some (Inr obs) \<Longrightarrow> \<exists>s'. CollectGarbage D n s = Some (Inr s') \<and> observe s' = obs"
  by (cases "CollectGarbage D n s"; cases "the (CollectGarbage D n s)") (auto simp add: collect_observe_def)

lemma collect_observe_Inl:
  "collect_observe D n s = Some (Inl e) \<Longrightarrow> CollectGarbage D n s = Some (Inl e)"
  by (cases "CollectGarbage D n s"; cases "the (CollectGarbage D n s)") (auto simp add: collect_observe_def)


section \<open>Handles during the sweep\<close>

lemma get_ptr_MarkInvalid:
  "get_ptr (MarkInvalid h' s) h =
     (if h = h' then (get_ptr s h)\<lparr>ptr_object := None, ptr_info := None\<rparr> else get_ptr s h)"
  by (simp add: MarkInvalid_def modify_ptr_def get_ptr_def split: option.splits)

lemma get_ptr_fold_MarkInvalid:
  "get_ptr (fold MarkInvalid hs s) h =
     (if h \<in> set hs then (get_ptr s h)\<lparr>ptr_object := None, ptr_info := None\<rparr> else get_ptr s h)"
  by (induction hs arbitrary: s) (auto simp add: get_ptr_MarkInvalid)

lemma get_ptr_after_dtor:
  "get_ptr (after_dtor h' s) h =
     (if h = h' then \<lparr>ptr_object = None, ptr_info = None, ptr_root = False\<rparr> else get_ptr s h)"
  by (simp add: get_ptr_def)

lemma get_ptr_fold_after_dtor:
  "get_ptr (fold after_dtor hs s) h =
     (if h \<in> set hs then \<lparr>ptr_object = None, ptr_info = None, ptr_root = False\<rparr> else get_ptr s h)"
  by (induction hs arbitrary: s) (auto simp add: get_ptr_after_dtor)

lemma pointers_fold_after_dtor_subset:
  "set (pointers (fold after_dtor hs s)) \<subseteq> set (pointers s)"
proof (induction hs arbitrary: s)
  case Nil
  then show ?case by simp
next
  case (Cons h hs)
  have "set (pointers (fold after_dtor hs (after_dtor h s))) \<subseteq> set (pointers (after_dtor h s))"
    by (rule Cons.IH)
  also have "\<dots> \<subseteq> set (pointers s)" by (simp add: set_remove1_subset)
  finally show ?case by simp
qed

lemma pointers_fold_after_dtor_other:
  "h \<notin> set hs \<Longrightarrow> h \<in> set (pointers (fold after_dtor hs s)) \<longleftrightarrow> h \<in> set (pointers s)"
  by (induction hs arbitrary: s) auto

lemma find_info_after_unbind:
  "find_info (after_unbind h' s) b =
     (if ptr_info (get_ptr s h') = Some b
      then map_option (\<lambda>r. r\<lparr>oi_pointers := remove1 h' (oi_pointers r)\<rparr>) (find_info s b)
      else find_info s b)"
  by (auto simp add: after_unbind_def find_info_modify_info split: option.splits)

lemma find_info_after_dtor: "find_info (after_dtor h' s) b = find_info (after_unbind h' s) b"
  by (simp add: find_info_def)

text \<open>Destroying handles takes only these handles out of the lists of the records.\<close>

lemma lists_after_dtor:
  assumes "find_info (after_dtor h' s) b = Some r'"
  shows "\<exists>r. find_info s b = Some r \<and> r'\<lparr>oi_pointers := []\<rparr> = r\<lparr>oi_pointers := []\<rparr>
    \<and> set (oi_pointers r') \<subseteq> set (oi_pointers r)
    \<and> set (oi_pointers r) - {h'} \<subseteq> set (oi_pointers r')"
  using assms
proof (cases "ptr_info (get_ptr s h') = Some b")
  case True
  with assms obtain r where r: "find_info s b = Some r"
    "r' = r\<lparr>oi_pointers := remove1 h' (oi_pointers r)\<rparr>"
    by (auto simp add: find_info_after_dtor find_info_after_unbind)
  have "set (remove1 h' (oi_pointers r)) \<subseteq> set (oi_pointers r)" by (rule set_remove1_subset)
  moreover have "set (oi_pointers r) - {h'} \<subseteq> set (remove1 h' (oi_pointers r))"
  proof
    fix x assume "x \<in> set (oi_pointers r) - {h'}"
    then have "x \<noteq> h'" "x \<in> set (oi_pointers r)" by auto
    then show "x \<in> set (remove1 h' (oi_pointers r))" by (simp add: in_set_remove1)
  qed
  ultimately show ?thesis using r by simp
next
  case False
  with assms show ?thesis by (simp add: find_info_after_dtor find_info_after_unbind)
qed

lemma lists_fold_after_dtor:
  assumes "find_info (fold after_dtor hs s) b = Some r'"
  shows "\<exists>r. find_info s b = Some r \<and> r'\<lparr>oi_pointers := []\<rparr> = r\<lparr>oi_pointers := []\<rparr>
    \<and> set (oi_pointers r') \<subseteq> set (oi_pointers r)
    \<and> set (oi_pointers r) - set hs \<subseteq> set (oi_pointers r')"
  using assms
proof (induction hs arbitrary: s)
  case Nil
  then show ?case by simp
next
  case (Cons h hs)
  from Cons.prems have "find_info (fold after_dtor hs (after_dtor h s)) b = Some r'" by simp
  from Cons.IH [OF this] obtain r1 where r1: "find_info (after_dtor h s) b = Some r1"
    "r'\<lparr>oi_pointers := []\<rparr> = r1\<lparr>oi_pointers := []\<rparr>"
    "set (oi_pointers r') \<subseteq> set (oi_pointers r1)"
    "set (oi_pointers r1) - set hs \<subseteq> set (oi_pointers r')"
    by blast
  from lists_after_dtor [OF r1(1)] obtain r where r: "find_info s b = Some r"
    "r1\<lparr>oi_pointers := []\<rparr> = r\<lparr>oi_pointers := []\<rparr>"
    "set (oi_pointers r1) \<subseteq> set (oi_pointers r)"
    "set (oi_pointers r) - {h} \<subseteq> set (oi_pointers r1)"
    by blast
  have "set (oi_pointers r) - set (h # hs) \<subseteq> set (oi_pointers r')"
    using r(4) r1(4) by auto
  with r r1 show ?case by auto
qed

subsection \<open>The step of the sweep, taken apart\<close>

lemma get_ptr_released [simp]: "get_ptr (s\<lparr>released := x\<rparr>) h = get_ptr s h"
  by (simp add: get_ptr_def)

lemma get_ptr_objects [simp]: "get_ptr (s\<lparr>objects := x\<rparr>) h = get_ptr s h"
  by (simp add: get_ptr_def)

lemma get_ptr_allocatedBytes [simp]: "get_ptr (s\<lparr>allocatedBytes := x\<rparr>) h = get_ptr s h"
  by (simp add: get_ptr_def)

lemma get_ptr_finalized [simp]: "get_ptr (s\<lparr>finalized := x\<rparr>) h = get_ptr s h"
  by (simp add: get_ptr_def)

lemma find_info_frame [simp]:
  "find_info (s\<lparr>released := x\<rparr>) a = find_info s a"
  "find_info (s\<lparr>allocatedBytes := y\<rparr>) a = find_info s a"
  "find_info (s\<lparr>finalized := z\<rparr>) a = find_info s a"
  "find_info (s\<lparr>handles := u\<rparr>) a = find_info s a"
  "find_info (s\<lparr>pointers := v\<rparr>) a = find_info s a"
  by (simp_all add: find_info_def)

subsection \<open>Handles bound to a swept record are cleared\<close>

lemma bound_ok_iff:
  "bound_ok s \<longleftrightarrow> (\<forall>h \<in> set (pointers s). \<forall>a. ptr_info (get_ptr s h) = Some a \<longrightarrow>
     (\<exists>r. find_info s a = Some r \<and> h \<in> set (oi_pointers r)))"
proof -
  have "(case ptr_info (get_ptr s h) of None \<Rightarrow> True
         | Some a \<Rightarrow> (case find_info s a of None \<Rightarrow> False | Some r \<Rightarrow> h \<in> set (oi_pointers r))) =
        (\<forall>a. ptr_info (get_ptr s h) = Some a \<longrightarrow> (\<exists>r. find_info s a = Some r \<and> h \<in> set (oi_pointers r)))"
    for h
    by (cases "ptr_info (get_ptr s h)") (auto split: option.splits)
  then show ?thesis by (simp add: bound_ok_def)
qed

lemma bound_okD:
  "bound_ok s \<Longrightarrow> h \<in> set (pointers s) \<Longrightarrow> ptr_info (get_ptr s h) = Some a \<Longrightarrow>
     \<exists>r. find_info s a = Some r \<and> h \<in> set (oi_pointers r)"
  by (simp add: bound_ok_iff)

lemma cleared_default [simp]:
  "ptr_object \<lparr>ptr_object = None, ptr_info = None, ptr_root = False\<rparr> = None"
  "ptr_info \<lparr>ptr_object = None, ptr_info = None, ptr_root = False\<rparr> = None"
  by simp_all

text \<open>The state between the destructor call and the invalidation of the remaining bound
  handles still satisfies the binding invariant.\<close>

lemma bound_ok_fold_after_dtor:
  assumes "bound_ok s"
  shows "bound_ok (fold after_dtor hs s)"
  unfolding bound_ok_iff
proof (intro ballI allI impI)
  fix h b
  let ?s2 = "fold after_dtor hs s"
  assume h: "h \<in> set (pointers ?s2)" and b: "ptr_info (get_ptr ?s2 h) = Some b"
  from h have hs: "h \<in> set (pointers s)" using pointers_fold_after_dtor_subset by blast
  from b have nd: "h \<notin> set hs" and same: "get_ptr ?s2 h = get_ptr s h"
    by (auto simp add: get_ptr_fold_after_dtor split: if_splits)
  from bound_okD [OF assms hs] b same obtain r where r: "find_info s b = Some r" "h \<in> set (oi_pointers r)"
    by auto
  have "skeleton ?s2 = skeleton s" by simp
  from skeleton_eq_find [OF this, of b] r(1) obtain r' where r': "find_info ?s2 b = Some r'" by auto
  from lists_fold_after_dtor [OF r'] r(1) have "set (oi_pointers r) - set hs \<subseteq> set (oi_pointers r')"
    by auto
  with r(2) nd have "h \<in> set (oi_pointers r')" by auto
  with r' show "\<exists>r. find_info ?s2 b = Some r \<and> h \<in> set (oi_pointers r)" by blast
qed

lemma bound_ok_allocatedBytes [simp]: "bound_ok (s\<lparr>allocatedBytes := x\<rparr>) = bound_ok s"
  by (simp add: bound_ok_iff)

lemma bound_ok_finalized [simp]: "bound_ok (s\<lparr>finalized := x\<rparr>) = bound_ok s"
  by (simp add: bound_ok_iff)

lemma sweep_object_fields:
  assumes "find_info s a = Some r"
    and "s2 = fold after_dtor hs
           (s\<lparr>allocatedBytes := allocatedBytes s - oi_size r, finalized := finalized s @ [a]\<rparr>)"
    and "s' = (fold MarkInvalid (oi_pointers r2) (s2\<lparr>released := released s2 @ [Some a]\<rparr>))
              \<lparr>objects := map_erase a (objects s2)\<rparr>"
  shows "pointers s' = pointers s2"
    and "get_ptr s' h = (if h \<in> set (oi_pointers r2)
           then (get_ptr s2 h)\<lparr>ptr_object := None, ptr_info := None\<rparr> else get_ptr s2 h)"
    and "find_info s' b = (if b = a then None else find_info s2 b)"
    and "get_ptr s2 h = (if h \<in> set hs
           then \<lparr>ptr_object = None, ptr_info = None, ptr_root = False\<rparr> else get_ptr s h)"
proof -
  show "pointers s' = pointers s2" by (simp add: assms(3))
  show "get_ptr s' h = (if h \<in> set (oi_pointers r2)
           then (get_ptr s2 h)\<lparr>ptr_object := None, ptr_info := None\<rparr> else get_ptr s2 h)"
    by (simp add: assms(3) get_ptr_fold_MarkInvalid)
  show "find_info s' b = (if b = a then None else find_info s2 b)"
    by (simp add: assms(3) find_info_def map_of_map_erase)
  show "get_ptr s2 h = (if h \<in> set hs
           then \<lparr>ptr_object = None, ptr_info = None, ptr_root = False\<rparr> else get_ptr s h)"
    by (simp add: assms(2) get_ptr_fold_after_dtor)
qed

lemma bound_ok_sweep_object:
  assumes "bound_ok s" and "sweep_object D a s = Inr s'"
  shows "bound_ok s'"
  using assms(2)
proof (cases rule: sweep_object_cases)
  case absent
  with assms(1) show ?thesis by simp
next
  case (swept r T s2 r2 hs)
  note f = sweep_object_fields [OF swept(1,3,5)]
  have b2: "bound_ok s2" unfolding swept(3) using assms(1) by (intro bound_ok_fold_after_dtor) simp
  show ?thesis
    unfolding bound_ok_iff
  proof (intro ballI allI impI)
    fix h b
    assume h: "h \<in> set (pointers s')" and b: "ptr_info (get_ptr s' h) = Some b"
    from b have nl: "h \<notin> set (oi_pointers r2)" and same: "get_ptr s' h = get_ptr s2 h"
      by (auto simp add: f(2) split: if_splits)
    from h have "h \<in> set (pointers s2)" by (simp add: f(1))
    from bound_okD [OF b2 this] b same obtain r' where r': "find_info s2 b = Some r'" "h \<in> set (oi_pointers r')"
      by auto
    with swept(4) nl have "b \<noteq> a" by auto
    with r' show "\<exists>r. find_info s' b = Some r \<and> h \<in> set (oi_pointers r)" by (simp add: f(3))
  qed
qed

lemma cleared_sweep_object:
  assumes "cleared s h" and "sweep_object D a s = Inr s'"
  shows "cleared s' h"
  using assms(2)
proof (cases rule: sweep_object_cases)
  case absent
  with assms(1) show ?thesis by simp
next
  case (swept r T s2 r2 hs)
  note f = sweep_object_fields [OF swept(1,3,5)]
  from assms(1) show ?thesis by (simp add: cleared_def f(2) f(4))
qed

lemma cleared_sweep: "cleared s h \<Longrightarrow> sweep D as s = Inr s' \<Longrightarrow> cleared s' h"
  by (induction as arbitrary: s) (auto split: sum.splits dest: cleared_sweep_object)

lemma sweep_object_clears:
  assumes "bound_ok s" and "sweep_object D a s = Inr s'"
    and "h \<in> set (pointers s)" and "ptr_info (get_ptr s h) = Some a"
  shows "cleared s' h"
  using assms(2)
proof (cases rule: sweep_object_cases)
  case absent
  with bound_okD [OF assms(1,3,4)] show ?thesis by simp
next
  case (swept r T s2 r2 hs)
  note f = sweep_object_fields [OF swept(1,3,5)]
  have b2: "bound_ok s2" unfolding swept(3) using assms(1) by (intro bound_ok_fold_after_dtor) simp
  show ?thesis
  proof (cases "h \<in> set (oi_pointers r2)")
    case True
    then show ?thesis by (simp add: cleared_def f(2))
  next
    case False
    have "h \<in> set hs"
    proof (rule ccontr)
      assume out: "h \<notin> set hs"
      then have same: "get_ptr s2 h = get_ptr s h" by (auto simp add: f(4))
      from out assms(3) have "h \<in> set (pointers s2)"
        by (simp add: swept(3) pointers_fold_after_dtor_other)
      from bound_okD [OF b2 this] same assms(4) swept(4) have "h \<in> set (oi_pointers r2)" by auto
      with False show False by simp
    qed
    with False show ?thesis by (simp add: cleared_def f(2) f(4))
  qed
qed

lemma sweep_object_evolution:
  assumes "sweep_object D a s = Inr s'" and "h \<in> set (pointers s)"
  shows "cleared s' h \<or> (h \<in> set (pointers s') \<and> get_ptr s' h = get_ptr s h)"
  using assms(1)
proof (cases rule: sweep_object_cases)
  case absent
  with assms(2) show ?thesis by simp
next
  case (swept r T s2 r2 hs)
  note f = sweep_object_fields [OF swept(1,3,5)]
  show ?thesis
  proof (cases "h \<in> set (oi_pointers r2) \<or> h \<in> set hs")
    case True
    then have "cleared s' h" by (auto simp add: cleared_def f(2) f(4))
    then show ?thesis ..
  next
    case False
    with assms(2) have "h \<in> set (pointers s2)" by (simp add: swept(3) pointers_fold_after_dtor_other)
    with False show ?thesis by (auto simp add: f)
  qed
qed

lemma sweep_clears:
  assumes "bound_ok s" and "sweep D as s = Inr s'" and "a \<in> set as"
    and "h \<in> set (pointers s)" and "ptr_info (get_ptr s h) = Some a"
  shows "cleared s' h"
  using assms
proof (induction as arbitrary: s)
  case Nil
  then show ?case by simp
next
  case (Cons x as)
  from Cons.prems(2) obtain s1 where s1: "sweep_object D x s = Inr s1" and rest: "sweep D as s1 = Inr s'"
    by (auto split: sum.splits)
  have b1: "bound_ok s1" using Cons.prems(1) s1 by (rule bound_ok_sweep_object)
  show ?case
  proof (cases "cleared s1 h")
    case True
    then show ?thesis using rest by (rule cleared_sweep)
  next
    case False
    with sweep_object_evolution [OF s1 Cons.prems(4)]
    have h1: "h \<in> set (pointers s1)" "get_ptr s1 h = get_ptr s h" by auto
    from False sweep_object_clears [OF Cons.prems(1) s1 Cons.prems(4)] Cons.prems(5)
    have "x \<noteq> a" by auto
    with Cons.prems(3) have "a \<in> set as" by simp
    from Cons.IH [OF b1 rest this h1(1)] h1(2) Cons.prems(5) show ?thesis by simp
  qed
qed

lemma bound_ok_flipped [simp]: "bound_ok (flipped s) = bound_ok s"
proof -
  have "(\<exists>r. find_info (flipped s) a = Some r \<and> h \<in> set (oi_pointers r)) =
      (\<exists>r. find_info s a = Some r \<and> h \<in> set (oi_pointers r))" for a h
    by (cases "find_info s a") (auto simp add: find_info_flipped)
  then show ?thesis by (simp add: bound_ok_iff)
qed

lemma operator_delete_fields:
  assumes "find_info s a = Some r"
  shows "pointers (operator_delete (Some a) s) = pointers s"
    and "find_info (operator_delete (Some a) s) b = (if b = a then None else find_info s b)"
    and "get_ptr (operator_delete (Some a) s) h = (if h \<in> set (oi_pointers r)
           then (get_ptr s h)\<lparr>ptr_object := None, ptr_info := None\<rparr> else get_ptr s h)"
  using assms
  by (simp_all add: operator_delete_def Let_def find_info_def map_of_map_erase get_ptr_fold_MarkInvalid)

lemma collect_handles_Inr:
  "collect_handles D n s hs = Some (Inr ps) \<Longrightarrow> \<exists>s'. CollectGarbage D n s = Some (Inr s') \<and> map (handles s') hs = ps"
  by (cases "CollectGarbage D n s"; cases "the (CollectGarbage D n s)") (auto simp add: collect_handles_def)

section \<open>The global handle registry\<close>

lemma push_pointer_frame [simp]:
  "pointers (push_pointer a h s) = pointers s"
  "handles (push_pointer a h s) = handles s"
  by (simp_all add: push_pointer_def)

lemma bind_destroy_frame [simp]:
  "pointers (bind_destroy a T s) = pointers s"
  "handles (bind_destroy a T s) = handles s"
  by (simp_all add: bind_destroy_def)

lemma dom_modify_ptr [simp]: "dom (handles (modify_ptr h f s)) = dom (handles s)"
  by (auto simp add: modify_ptr_def split: option.splits)

lemma dom_MarkInvalid [simp]: "dom (handles (MarkInvalid h s)) = dom (handles s)"
  by (simp add: MarkInvalid_def)

lemma dom_fold_MarkInvalid [simp]: "dom (handles (fold MarkInvalid hs s)) = dom (handles s)"
  by (induction hs arbitrary: s) simp_all









lemma registered_once_frame:
  "pointers s' = pointers s \<Longrightarrow> handles s' = handles s \<Longrightarrow> registered_once s' = registered_once s"
  by (simp add: registered_once_def)




section \<open>The heap after a collection\<close>


subsection \<open>The records that remain\<close>


lemma keys_ok_find: "keys_ok s \<Longrightarrow> find_info s a = Some r \<Longrightarrow> oi_object r = a"
  by (auto simp add: keys_ok_def find_info_def dest!: map_of_SomeD)

lemma keys_ok_member: "keys_ok s \<Longrightarrow> (a, r) \<in> set (objects s) \<Longrightarrow> find_info s a = Some r"
  by (simp add: keys_ok_def find_info_def)


subsection \<open>The reference graph\<close>

lemma lists_ok_find:
  "lists_ok s \<Longrightarrow> find_info s a = Some r \<Longrightarrow> h \<in> set (oi_pointers r) \<Longrightarrow>
     h \<in> set (pointers s) \<and> ptr_info (get_ptr s h) = Some a"
  by (auto simp add: lists_ok_def find_info_def dest!: map_of_SomeD)

lemma extents_ok_find:
  assumes "extents_ok s" "keys_ok s" and "find_info s a = Some ra" "find_info s x = Some rx"
    and "a \<noteq> x" and "in_range ra h"
  shows "\<not> in_range rx h"
proof -
  from assms(3,4) have m: "(a, ra) \<in> set (objects s)" "(x, rx) \<in> set (objects s)"
    by (auto simp add: find_info_def dest: map_of_SomeD)
  from assms(1) m assms(5) have "a + unat (oi_size ra) \<le> x \<or> x + unat (oi_size rx) \<le> a"
    by (fastforce simp add: extents_ok_def)
  moreover have "oi_object ra = a" "oi_object rx = x"
    using assms(2,3,4) by (simp_all add: keys_ok_find)
  ultimately show ?thesis using assms(6) by (auto simp add: in_range_def)
qed






lemma collect_twice_Inr:
  assumes "collect_twice D n s = Some (o1, Some (Inr o2))"
  shows "\<exists>s' s''. CollectGarbage D n s = Some (Inr s') \<and> observe s' = o1
    \<and> CollectGarbage D n s' = Some (Inr s'') \<and> observe s'' = o2"
proof -
  from assms obtain s' where s': "CollectGarbage D n s = Some (Inr s')" "observe s' = o1"
    "collect_observe D n s' = Some (Inr o2)"
    by (auto simp add: collect_twice_def split: option.splits sum.splits)
  from collect_observe_Inr [OF s'(3)] s'(1,2) show ?thesis by blast
qed

section \<open>The invariant holds in every proper run\<close>

subsection \<open>The invariant in terms of lookups\<close>

lemma keys_ok_mem_iff: "keys_ok s \<Longrightarrow> (a, r) \<in> set (objects s) \<longleftrightarrow> find_info s a = Some r"
  by (auto simp add: keys_ok_def find_info_def dest: map_of_SomeD)


lemma lists_ok_iff:
  "keys_ok s \<Longrightarrow> lists_ok s \<longleftrightarrow> (\<forall>a r. find_info s a = Some r \<longrightarrow> distinct (oi_pointers r) \<and>
     (\<forall>h \<in> set (oi_pointers r). h \<in> set (pointers s) \<and> ptr_info (get_ptr s h) = Some a))"
  by (auto simp add: lists_ok_def keys_ok_mem_iff [symmetric])

lemma extents_ok_iff:
  "keys_ok s \<Longrightarrow> extents_ok s \<longleftrightarrow> (\<forall>a ra b rb. find_info s a = Some ra \<longrightarrow> find_info s b = Some rb \<longrightarrow>
     a \<noteq> b \<longrightarrow> a + unat (oi_size ra) \<le> b \<or> b + unat (oi_size rb) \<le> a)"
  unfolding extents_ok_def
  by (simp add: keys_ok_mem_iff [symmetric] split_def) (metis prod.collapse fst_conv snd_conv)

lemma keys_ok_iff:
  "keys_ok s \<longleftrightarrow> distinct (map fst (objects s)) \<and> (\<forall>a r. find_info s a = Some r \<longrightarrow> oi_object r = a)"
  by (auto simp add: keys_ok_def find_info_def dest: map_of_SomeD)

text \<open>The parts of the invariant that concern handles, as one predicate on lookups.\<close>

lemma registry_ok_registered_once: "registered_once s \<Longrightarrow> registry_ok s"
  by (auto simp add: registered_once_def registry_ok_def)

subsection \<open>Changing a record in place\<close>

lemma keys_modify_info [simp]: "map fst (objects (modify_info a f s)) = map fst (objects s)"
  by (simp add: modify_info_def split_def o_def)

lemma keys_ok_modify_info:
  assumes "keys_ok s" and "\<And>r. oi_object (f r) = oi_object r"
  shows "keys_ok (modify_info a f s)"
  using assms by (auto simp add: keys_ok_iff find_info_modify_info split: if_splits)



lemma push_pointer_frame2 [simp]:
  "currentMark (push_pointer a h s) = currentMark s"
  "get_ptr (push_pointer a h s) h' = get_ptr s h'"
  "map fst (objects (push_pointer a h s)) = map fst (objects s)"
  by (simp_all add: push_pointer_def)

lemma bind_destroy_frame2 [simp]:
  "currentMark (bind_destroy a T s) = currentMark s"
  "get_ptr (bind_destroy a T s) h' = get_ptr s h'"
  "map fst (objects (bind_destroy a T s)) = map fst (objects s)"
  by (simp_all add: bind_destroy_def)

lemma after_unbind_frame2 [simp]:
  "map fst (objects (after_unbind h s)) = map fst (objects s)"
  by (simp add: after_unbind_def split: option.splits)



subsection \<open>Rebinding one handle\<close>

lemma lists_ok_distinct: "lists_ok s \<Longrightarrow> find_info s a = Some r \<Longrightarrow> distinct (oi_pointers r)"
  by (auto simp add: lists_ok_def find_info_def dest!: map_of_SomeD)

lemma extents_ok_sizes:
  "extents_ok s \<Longrightarrow> find_info s a = Some ra \<Longrightarrow> find_info s b = Some rb \<Longrightarrow> a \<noteq> b \<Longrightarrow>
     a + unat (oi_size ra) \<le> b \<or> b + unat (oi_size rb) \<le> a"
  by (fastforce simp add: extents_ok_def find_info_def dest!: map_of_SomeD)



subsection \<open>The operations on handles preserve the invariant\<close>



lemma not_in_lists:
  assumes "lists_ok s" and "find_info s b = Some r" and "ptr_info (get_ptr s this) \<noteq> Some b \<or> this \<notin> set (pointers s)"
  shows "this \<notin> set (oi_pointers r)"
  using lists_ok_find [OF assms(1,2), of this] assms(3) by auto

lemma after_unbind_find_lists:
  assumes "lists_ok s"
  shows "find_info (after_unbind this s) b =
     map_option (\<lambda>r. r\<lparr>oi_pointers := remove1 this (oi_pointers r)\<rparr>) (find_info s b)"
proof (cases "find_info s b")
  case None
  then show ?thesis by (simp add: find_info_after_unbind)
next
  case (Some r)
  show ?thesis
  proof (cases "ptr_info (get_ptr s this) = Some b")
    case True
    then show ?thesis by (simp add: find_info_after_unbind)
  next
    case False
    with not_in_lists [OF assms Some] have "this \<notin> set (oi_pointers r)" by simp
    then have "remove1 this (oi_pointers r) = oi_pointers r" by (rule remove1_idem)
    with False Some show ?thesis by (simp add: find_info_after_unbind)
  qed
qed


lemma get_ptr_pointers [simp]: "get_ptr (s\<lparr>pointers := ps\<rparr>) h = get_ptr s h"
  by (simp add: get_ptr_def)



lemma ctor_handles:
  "handles (Ptr_default this root s) h \<noteq> None \<longleftrightarrow> h = this \<or> handles s h \<noteq> None"
  "handles (Ptr_raw this root T obj junk s) h \<noteq> None \<longleftrightarrow> h = this \<or> handles s h \<noteq> None"
  "handles (after_copy this root other s) h \<noteq> None \<longleftrightarrow> h = this \<or> handles s h \<noteq> None"
  by (simp_all add: Ptr_default_def Ptr_raw_def after_copy_def Let_def split: option.splits)






















subsection \<open>Allocation and explicit deallocation preserve the invariant\<close>








lemma keys_map_erase: "map fst (map_erase a xs) = filter (\<lambda>k. k \<noteq> a) (map fst xs)"
  by (induction xs) (auto simp add: map_erase_def)

text \<open>Clearing the handles in the list of a record and erasing the record, as both
  \<^verbatim>\<open>operator delete\<close> and the sweep do.\<close>

lemma erase_preserves:
  assumes k: "keys_ok s" and l: "lists_ok s" and b: "bound_ok s" and reg: "registry_ok s"
    and e: "extents_ok s" and r: "find_info s a = Some r"
    and ptrs: "pointers s' = pointers s"
    and hd: "\<And>h. handles s h \<noteq> None \<Longrightarrow> handles s' h \<noteq> None"
    and find: "\<And>b. find_info s' b = (if b = a then None else find_info s b)"
    and keys: "map fst (objects s') = filter (\<lambda>k. k \<noteq> a) (map fst (objects s))"
    and get: "\<And>h. get_ptr s' h = (if h \<in> set (oi_pointers r)
           then (get_ptr s h)\<lparr>ptr_object := None, ptr_info := None\<rparr> else get_ptr s h)"
  shows "keys_ok s' \<and> lists_ok s' \<and> bound_ok s' \<and> registry_ok s' \<and> extents_ok s'"
proof -
  have k': "keys_ok s'"
    unfolding keys_ok_iff
  proof (intro conjI allI impI)
    show "distinct (map fst (objects s'))" using k by (simp add: keys keys_ok_def)
    fix b rb assume "find_info s' b = Some rb"
    then have "find_info s b = Some rb" by (simp add: find split: if_splits)
    then show "oi_object rb = b" by (rule keys_ok_find [OF k])
  qed
  have l': "lists_ok s'"
    unfolding lists_ok_iff [OF k']
  proof (intro conjI allI impI ballI)
    fix b rb assume "find_info s' b = Some rb"
    then have rb: "find_info s b = Some rb" "b \<noteq> a" by (simp_all add: find split: if_splits)
    show "distinct (oi_pointers rb)" using l rb(1) by (rule lists_ok_distinct)
    fix h assume h: "h \<in> set (oi_pointers rb)"
    from lists_ok_find [OF l rb(1) h] have hp: "h \<in> set (pointers s)" "ptr_info (get_ptr s h) = Some b"
      by simp_all
    show "h \<in> set (pointers s')" using hp(1) by (simp add: ptrs)
    have "h \<notin> set (oi_pointers r)"
    proof
      assume "h \<in> set (oi_pointers r)"
      from lists_ok_find [OF l r this] hp(2) rb(2) show False by simp
    qed
    with hp(2) show "ptr_info (get_ptr s' h) = Some b" by (simp add: get)
  qed
  have b': "bound_ok s'"
    unfolding bound_ok_iff
  proof (intro ballI allI impI)
    fix h c assume h: "h \<in> set (pointers s')" and c: "ptr_info (get_ptr s' h) = Some c"
    from c have nl: "h \<notin> set (oi_pointers r)" and cs: "ptr_info (get_ptr s h) = Some c"
      by (auto simp add: get split: if_splits)
    from h have "h \<in> set (pointers s)" by (simp add: ptrs)
    from bound_okD [OF b this cs] obtain rc where rc: "find_info s c = Some rc" "h \<in> set (oi_pointers rc)"
      by blast
    with r nl have "c \<noteq> a" by auto
    with rc show "\<exists>r. find_info s' c = Some r \<and> h \<in> set (oi_pointers r)" by (simp add: find)
  qed
  have r': "registry_ok s'"
    using reg hd by (auto simp add: registry_ok_def ptrs)
  have e': "extents_ok s'"
    unfolding extents_ok_iff [OF k']
  proof (intro allI impI)
    fix x rx y ry
    assume "find_info s' x = Some rx" "find_info s' y = Some ry" and ne: "x \<noteq> y"
    then have "find_info s x = Some rx" "find_info s y = Some ry" by (simp_all add: find split: if_splits)
    from extents_ok_sizes [OF e this ne]
    show "x + unat (oi_size rx) \<le> y \<or> y + unat (oi_size ry) \<le> x" .
  qed
  from k' l' b' r' e' show ?thesis by simp
qed

lemma handles_fold_MarkInvalid: "handles s h \<noteq> None \<Longrightarrow> handles (fold MarkInvalid hs s) h \<noteq> None"
proof -
  assume "handles s h \<noteq> None"
  then have "h \<in> dom (handles s)" by (simp only: domIff not_False_eq_True)
  then have "h \<in> dom (handles (fold MarkInvalid hs s))" by (simp only: dom_fold_MarkInvalid)
  then show ?thesis by (simp only: domIff not_False_eq_True)
qed



subsection \<open>A collection preserves the invariant\<close>

lemma heap_inv_links: "heap_inv s \<longleftrightarrow> links_ok s \<and> marks_ok s"
  by (auto simp add: heap_inv_def links_ok_def)

lemma links_ok_frame:
  assumes "objects s' = objects s" "pointers s' = pointers s" "handles s' = handles s"
  shows "links_ok s' = links_ok s"
proof -
  have f: "find_info s' = find_info s" by (simp add: fun_eq_iff find_info_def assms)
  have g: "get_ptr s' = get_ptr s" by (simp add: fun_eq_iff get_ptr_def assms)
  show ?thesis
    by (simp add: links_ok_def keys_ok_def registry_ok_def bound_ok_iff lists_ok_def
        extents_ok_def assms f g)
qed

lemma links_ok_after_dtor:
  assumes "links_ok s"
  shows "links_ok (after_dtor this s)"
proof -
  from assms have k: "keys_ok s" and l: "lists_ok s" and b: "bound_ok s" and r: "registry_ok s"
    and e: "extents_ok s"
    by (simp_all add: links_ok_def)
  let ?s' = "after_dtor this s"
  from r have d: "distinct (pointers s)" by (simp add: registry_ok_def)
  have find: "find_info ?s' c = map_option (\<lambda>r. r\<lparr>oi_pointers := remove1 this (oi_pointers r)\<rparr>) (find_info s c)"
    for c
    by (simp add: find_info_after_dtor after_unbind_find_lists [OF l])
  have k': "keys_ok ?s'"
    unfolding keys_ok_iff
  proof (intro conjI allI impI)
    show "distinct (map fst (objects ?s'))" using k by (simp add: keys_ok_def)
    fix c rc assume "find_info ?s' c = Some rc"
    then obtain r0 where "find_info s c = Some r0" "oi_object rc = oi_object r0"
      by (auto simp add: find)
    with keys_ok_find [OF k] show "oi_object rc = c" by simp
  qed
  have l': "lists_ok ?s'"
    unfolding lists_ok_iff [OF k']
  proof (intro conjI allI impI ballI)
    fix c rc assume "find_info ?s' c = Some rc"
    then obtain r0 where r0: "find_info s c = Some r0" "oi_pointers rc = remove1 this (oi_pointers r0)"
      by (auto simp add: find)
    note d0 = lists_ok_distinct [OF l r0(1)]
    show "distinct (oi_pointers rc)" using d0 by (simp add: r0(2))
    fix h assume "h \<in> set (oi_pointers rc)"
    with d0 have h: "h \<noteq> this" "h \<in> set (oi_pointers r0)" by (simp_all add: r0(2) set_remove1_eq)
    from lists_ok_find [OF l r0(1) h(2)] h(1)
    show "h \<in> set (pointers ?s')" "ptr_info (get_ptr ?s' h) = Some c"
      by (simp_all add: in_set_remove1 get_ptr_after_dtor)
  qed
  have b': "bound_ok ?s'"
    unfolding bound_ok_iff
  proof (intro ballI allI impI)
    fix h c assume h: "h \<in> set (pointers ?s')" and c: "ptr_info (get_ptr ?s' h) = Some c"
    from h d have ne: "h \<noteq> this" and hs: "h \<in> set (pointers s)" by (simp_all add: set_remove1_eq)
    from c ne have "ptr_info (get_ptr s h) = Some c" by (simp add: get_ptr_after_dtor)
    from bound_okD [OF b hs this] obtain rc where rc: "find_info s c = Some rc" "h \<in> set (oi_pointers rc)"
      by blast
    with ne show "\<exists>r. find_info ?s' c = Some r \<and> h \<in> set (oi_pointers r)"
      by (simp add: find in_set_remove1)
  qed
  have r': "registry_ok ?s'"
    using r d by (auto simp add: registry_ok_def set_remove1_eq)
  have e': "extents_ok ?s'"
    unfolding extents_ok_iff [OF k']
  proof (intro allI impI)
    fix x rx y ry
    assume "find_info ?s' x = Some rx" "find_info ?s' y = Some ry" and ne: "x \<noteq> y"
    then obtain rx0 ry0 where "find_info s x = Some rx0" "find_info s y = Some ry0"
      "oi_size rx = oi_size rx0" "oi_size ry = oi_size ry0"
      by (auto simp add: find)
    with extents_ok_sizes [OF e this(1,2) ne]
    show "x + unat (oi_size rx) \<le> y \<or> y + unat (oi_size ry) \<le> x" by simp
  qed
  from k' l' b' r' e' show ?thesis by (simp add: links_ok_def)
qed

lemma links_ok_fold_after_dtor: "links_ok s \<Longrightarrow> links_ok (fold after_dtor hs s)"
  by (induction hs arbitrary: s) (simp_all add: links_ok_after_dtor)

lemma links_ok_sweep_object:
  assumes "links_ok s" and "sweep_object D a s = Inr s'"
  shows "links_ok s'"
  using assms(2)
proof (cases rule: sweep_object_cases)
  case absent
  with assms(1) show ?thesis by simp
next
  case (swept r T s2 r2 hs)
  note f = sweep_object_fields [OF swept(1,3,5)]
  have "links_ok (s\<lparr>allocatedBytes := allocatedBytes s - oi_size r, finalized := finalized s @ [a]\<rparr>)"
    using assms(1)
    by (simp add: links_ok_frame [of "s\<lparr>allocatedBytes := allocatedBytes s - oi_size r,
        finalized := finalized s @ [a]\<rparr>" s])
  then have "links_ok s2" unfolding swept(3) by (rule links_ok_fold_after_dtor)
  then have p: "keys_ok s2" "lists_ok s2" "bound_ok s2" "registry_ok s2" "extents_ok s2"
    by (simp_all add: links_ok_def)
  have "keys_ok s' \<and> lists_ok s' \<and> bound_ok s' \<and> registry_ok s' \<and> extents_ok s'"
  proof (rule erase_preserves [OF p(1) p(2) p(3) p(4) p(5) swept(4)])
    show "pointers s' = pointers s2" by (rule f)
    show "handles s' h \<noteq> None" if "handles s2 h \<noteq> None" for h
      using that by (simp add: swept(5) handles_fold_MarkInvalid)
    show "find_info s' b = (if b = a then None else find_info s2 b)" for b by (rule f)
    show "map fst (objects s') = filter (\<lambda>k. k \<noteq> a) (map fst (objects s2))"
      by (simp add: swept(5) keys_map_erase)
    show "get_ptr s' h = (if h \<in> set (oi_pointers r2)
           then (get_ptr s2 h)\<lparr>ptr_object := None, ptr_info := None\<rparr> else get_ptr s2 h)" for h
      by (rule f)
  qed
  then show ?thesis by (simp add: links_ok_def)
qed


lemma links_ok_flipped:
  assumes "links_ok s"
  shows "links_ok (flipped s)"
proof -
  from assms have k: "keys_ok s" and l: "lists_ok s" and b: "bound_ok s" and r: "registry_ok s"
    and e: "extents_ok s"
    by (simp_all add: links_ok_def)
  have find: "\<exists>r. find_info s c = Some r \<and> oi_object rc = oi_object r \<and> oi_size rc = oi_size r
      \<and> oi_pointers rc = oi_pointers r"
    if "find_info (flipped s) c = Some rc" for c rc
    using that by (auto simp add: find_info_flipped split: if_splits)
  have k': "keys_ok (flipped s)"
    unfolding keys_ok_iff
  proof (intro conjI allI impI)
    show "distinct (map fst (objects (flipped s)))" using k by (simp add: keys_ok_def)
    fix c rc assume "find_info (flipped s) c = Some rc"
    from find [OF this] keys_ok_find [OF k] show "oi_object rc = c" by auto
  qed
  have l': "lists_ok (flipped s)"
    unfolding lists_ok_iff [OF k']
  proof (intro conjI allI impI ballI)
    fix c rc assume "find_info (flipped s) c = Some rc"
    from find [OF this] obtain r0 where r0: "find_info s c = Some r0" "oi_pointers rc = oi_pointers r0"
      by blast
    show "distinct (oi_pointers rc)" using lists_ok_distinct [OF l r0(1)] by (simp add: r0(2))
    fix h assume "h \<in> set (oi_pointers rc)"
    with lists_ok_find [OF l r0(1), of h]
    show "h \<in> set (pointers (flipped s))" "ptr_info (get_ptr (flipped s) h) = Some c"
      by (simp_all add: r0(2))
  qed
  have e': "extents_ok (flipped s)"
    unfolding extents_ok_iff [OF k']
  proof (intro allI impI)
    fix x rx y ry
    assume "find_info (flipped s) x = Some rx" "find_info (flipped s) y = Some ry" and ne: "x \<noteq> y"
    from find [OF this(1)] find [OF this(2)]
    obtain rx0 ry0 where "find_info s x = Some rx0" "find_info s y = Some ry0"
      "oi_size rx = oi_size rx0" "oi_size ry = oi_size ry0"
      by blast
    with extents_ok_sizes [OF e this(1,2) ne]
    show "x + unat (oi_size rx) \<le> y \<or> y + unat (oi_size ry) \<le> x" by simp
  qed
  have "registry_ok (flipped s)" using r by (simp add: registry_ok_def)
  with k' l' e' b show ?thesis by (simp add: links_ok_def)
qed


subsection \<open>Every proper run\<close>




text \<open>In a heap that satisfies the invariant the handle operations do not fail on handles
  that exist.\<close>

lemma info_registered:
  assumes "heap_inv s" "registered_once s" and "handles s h \<noteq> None"
    and "ptr_info (get_ptr s h) = Some a"
  shows "find_info s a \<noteq> None"
proof -
  from assms(2,3) have "h \<in> set (pointers s)" by (auto simp add: registered_once_def)
  from bound_okD [OF heap_inv_parts(4) [OF assms(1)] this assms(4)] show ?thesis by auto
qed



lemma Ptr_assign_returns:
  assumes "heap_inv s" "registered_once s" and "handles s this \<noteq> None" "handles s other \<noteq> None"
  shows "Ptr_assign this other s = Inr (after_assign this other s)"
  using assms(3,4)
  by (rule Ptr_assign_defined)
    (erule info_registered [OF assms(1,2,3)], erule info_registered [OF assms(1,2,4)])

lemma Ptr_assign_raw_returns:
  assumes "heap_inv s" "registered_once s" and "handles s this \<noteq> None"
  shows "Ptr_assign_raw this T obj s = Inr (after_assign_raw this T obj s)"
  using assms(3) by (rule Ptr_assign_raw_defined) (rule info_registered [OF assms])

section \<open>When a collection fails\<close>

lemma destroy_handles_defined:
  assumes "links_ok s" "distinct hs" "set hs \<subseteq> set (pointers s)"
  shows "destroy_handles hs s = Inr (fold after_dtor hs s)"
  using assms
proof (induction hs arbitrary: s)
  case Nil
  then show ?case by simp
next
  case (Cons h hs)
  from Cons.prems(1) have b: "bound_ok s" and r: "registry_ok s" by (simp_all add: links_ok_def)
  from Cons.prems(3) have h: "h \<in> set (pointers s)" by simp
  with r have ex: "handles s h \<noteq> None" by (simp add: registry_ok_def)
  have "Ptr_dtor h s = Inr (after_dtor h s)"
    using ex
  proof (rule Ptr_dtor_defined)
    fix a assume "ptr_info (get_ptr s h) = Some a"
    from bound_okD [OF b h this] show "find_info s a \<noteq> None" by auto
  qed
  moreover have "destroy_handles hs (after_dtor h s) = Inr (fold after_dtor hs (after_dtor h s))"
  proof (rule Cons.IH)
    show "links_ok (after_dtor h s)" using Cons.prems(1) by (rule links_ok_after_dtor)
    show "distinct hs" using Cons.prems(2) by simp
    show "set hs \<subseteq> set (pointers (after_dtor h s))"
    proof
      fix x assume "x \<in> set hs"
      with Cons.prems(2,3) have "x \<noteq> h" "x \<in> set (pointers s)" by auto
      then show "x \<in> set (pointers (after_dtor h s))" by (simp add: in_set_remove1)
    qed
  qed
  ultimately show ?case by simp
qed

lemma sweep_object_defined:
  assumes "links_ok s" and "teardown_ok D"
  shows "sweep_object D a s \<noteq> Inl WildPointer"
proof (cases "find_info s a")
  case None
  then show ?thesis by (simp add: sweep_object_def)
next
  case (Some r)
  show ?thesis
  proof (cases "oi_destroy r")
    case None
    with Some show ?thesis by (simp add: sweep_object_def Let_def)
  next
    case (Some T)
    let ?s1 = "s\<lparr>allocatedBytes := allocatedBytes s - oi_size r\<rparr>"
    let ?s2 = "?s1\<lparr>finalized := finalized ?s1 @ [a]\<rparr>"
    from assms(1) have "distinct (pointers ?s1)" by (simp add: links_ok_def registry_ok_def)
    with assms(2) have "distinct (D T a ?s1) \<and> set (D T a ?s1) \<subseteq> set (pointers ?s1)"
      unfolding teardown_ok_def by blast
    then have d: "distinct (D T a ?s1)" "set (D T a ?s1) \<subseteq> set (pointers ?s1)"
      by blast+
    have "links_ok ?s2 = links_ok s" by (rule links_ok_frame) simp_all
    with assms(1) have "links_ok ?s2" by simp
    from destroy_handles_defined [OF this d(1)] d(2)
    have "Destroy D T a ?s1 = Inr (fold after_dtor (D T a ?s1) ?s2)"
      by (simp add: Destroy_def)
    with \<open>find_info s a = Some r\<close> Some show ?thesis by (simp add: sweep_object_def Let_def)
  qed
qed

lemma unbound_skeleton:
  "(\<exists>r. find_info s a = Some r \<and> oi_destroy r = None) \<longleftrightarrow>
   (\<exists>r. map_of (skeleton s) a = Some r \<and> oi_destroy r = None)"
  by (auto simp add: map_of_skeleton)

lemma sweep_fatal:
  assumes "links_ok s" "teardown_ok D" "distinct as"
  shows "sweep D as s \<noteq> Inl WildPointer
    \<and> (sweep D as s = Inl NullFinalizer \<longleftrightarrow>
         (\<exists>a \<in> set as. \<exists>r. find_info s a = Some r \<and> oi_destroy r = None))"
  using assms
proof (induction as arbitrary: s)
  case Nil
  then show ?case by simp
next
  case (Cons a as)
  note nw = sweep_object_defined [OF Cons.prems(1,2), of a]
  show ?case
  proof (cases "sweep_object D a s")
    case (Inl e)
    with nw have "e = NullFinalizer" by (cases e) simp_all
    with Inl have f: "sweep_object D a s = Inl NullFinalizer" by simp
    then have "\<exists>r. find_info s a = Some r \<and> oi_destroy r = None"
      by (simp add: sweep_object_fatal)
    with f show ?thesis by auto
  next
    case (Inr s1)
    then have "sweep_object D a s \<noteq> Inl NullFinalizer" by simp
    then have na: "\<not> (\<exists>r. find_info s a = Some r \<and> oi_destroy r = None)"
      by (simp add: sweep_object_fatal)
    have same: "(\<exists>r. find_info s1 b = Some r \<and> oi_destroy r = None) \<longleftrightarrow>
        (\<exists>r. find_info s b = Some r \<and> oi_destroy r = None)" if "b \<noteq> a" for b
      using that by (simp add: unbound_skeleton sweep_object_Inr(1) [OF Inr] map_of_map_erase)
    from Cons.prems(3) have d: "distinct as" "a \<notin> set as" by simp_all
    have l1: "links_ok s1" using Cons.prems(1) Inr by (rule links_ok_sweep_object)
    note ih = Cons.IH [OF l1 Cons.prems(2) d(1)]
    from ih Inr have w: "sweep D (a # as) s \<noteq> Inl WildPointer" by simp
    from ih Inr have "sweep D (a # as) s = Inl NullFinalizer \<longleftrightarrow>
        (\<exists>b \<in> set as. \<exists>r. find_info s1 b = Some r \<and> oi_destroy r = None)"
      by simp
    also have "\<dots> \<longleftrightarrow> (\<exists>b \<in> set as. \<exists>r. find_info s b = Some r \<and> oi_destroy r = None)"
      using same d(2) by (metis)
    also have "\<dots> \<longleftrightarrow> (\<exists>b \<in> set (a # as). \<exists>r. find_info s b = Some r \<and> oi_destroy r = None)"
      using na by auto
    finally show ?thesis using w by simp
  qed
qed

text \<open>A collection of a heap that satisfies the invariant, with destructors that destroy
  existing handles, fails only by the fatal call, and it does so exactly when an
  unreachable record has no finalizer.\<close>

lemma CollectGarbage_fatal:
  assumes "heap_inv s" "teardown_ok D" and "CollectGarbage D n s = Some res"
  shows "res \<noteq> Inl WildPointer"
    and "res = Inl NullFinalizer \<longleftrightarrow>
      (\<exists>a r. find_info s a = Some r \<and> a \<notin> reach s \<and> oi_destroy r = None)"
proof -
  let ?as = "filter (\<lambda>a. a \<notin> reach s) (map fst (objects s))"
  from assms(1) have l: "links_ok s" and k: "keys_ok s" and m: "marks_ok s"
    by (simp_all add: heap_inv_links links_ok_def)
  have d: "distinct ?as" using k by (simp add: keys_ok_def)
  from CollectGarbage_result [OF m assms(3)] have res: "res = sweep D ?as (flipped s)" .
  note sf = sweep_fatal [OF links_ok_flipped [OF l] assms(2) d]
  from sf res show "res \<noteq> Inl WildPointer" by simp
  from sf res have "res = Inl NullFinalizer \<longleftrightarrow>
      (\<exists>a \<in> set ?as. \<exists>r. find_info (flipped s) a = Some r \<and> oi_destroy r = None)"
    by simp
  also have "\<dots> \<longleftrightarrow> (\<exists>a r. find_info s a = Some r \<and> a \<notin> reach s \<and> oi_destroy r = None)"
  proof
    assume "\<exists>a \<in> set ?as. \<exists>r. find_info (flipped s) a = Some r \<and> oi_destroy r = None"
    then obtain a r where a: "a \<in> set ?as" "find_info (flipped s) a = Some r" "oi_destroy r = None"
      by blast
    from a(1) have "a \<notin> reach s" by simp
    with a(2) have "find_info s a = Some r" by (simp add: find_info_flipped)
    with \<open>a \<notin> reach s\<close> a(3) show "\<exists>a r. find_info s a = Some r \<and> a \<notin> reach s \<and> oi_destroy r = None"
      by blast
  next
    assume "\<exists>a r. find_info s a = Some r \<and> a \<notin> reach s \<and> oi_destroy r = None"
    then obtain a r where a: "find_info s a = Some r" "a \<notin> reach s" "oi_destroy r = None" by blast
    from a(1) have "a \<in> fst ` set (objects s)" by (rule find_info_key)
    with a(2) have "a \<in> set ?as" by simp
    moreover from a(1,2) have "find_info (flipped s) a = Some r" by (simp add: find_info_flipped)
    ultimately show "\<exists>a \<in> set ?as. \<exists>r. find_info (flipped s) a = Some r \<and> oi_destroy r = None"
      using a(3) by blast
  qed
  finally show "res = Inl NullFinalizer \<longleftrightarrow>
      (\<exists>a r. find_info s a = Some r \<and> a \<notin> reach s \<and> oi_destroy r = None)" .
qed

lemma teardown_ok_member_handles: "teardown_ok member_handles"
  by (auto simp add: teardown_ok_def member_handles_def split: option.splits)

lemma teardown_ok_owner_teardown: "teardown_ok owner_teardown"
  by (auto simp add: teardown_ok_def owner_teardown_def)

section \<open>Two collections in a row\<close>








section \<open>The concrete heaps are reached by proper runs\<close>

lemma proper_step_assign_projr:
  "\<not> isl (Ptr_assign this other s) \<Longrightarrow> proper_step s (projr (Ptr_assign this other s))"
  by (rule proper_step.assign [of this other s]) simp

lemma proper_step_assign_raw_projr:
  "\<not> isl (Ptr_assign_raw this T obj s) \<Longrightarrow> proper_step s (projr (Ptr_assign_raw this T obj s))"
  by (rule proper_step.assign_raw [of this T obj s]) simp

lemma proper_run_bare_object: "proper_run bare_object"
  unfolding bare_object_def
  by (rule proper_run.after [rotated], rule proper_step.new, code_simp, rule proper_run.start)

lemma proper_run_one_object: "proper_run one_object"
proof -
  have "proper_run (operator_new 100 48 ''t.cpp'' 1 instance0)"
    by (rule proper_run.after [rotated], rule proper_step.new, code_simp, rule proper_run.start)
  then show ?thesis
    unfolding one_object_def
    by (rule proper_run.after) (rule proper_step.ctor_raw; code_simp)
qed


lemma proper_run_owned_root: "proper_run owned_root"
proof -
  have "proper_run (operator_new 100 8 ''t.cpp'' 1 instance0)"
    by (rule proper_run.after [rotated], rule proper_step.new, code_simp, rule proper_run.start)
  then have "proper_run (operator_new 200 8 ''t.cpp'' 2 (operator_new 100 8 ''t.cpp'' 1 instance0))"
    by (rule proper_run.after) (rule proper_step.new; code_simp)
  then have "proper_run (Ptr_raw 50 True ''Y'' (Some 200) None
      (operator_new 200 8 ''t.cpp'' 2 (operator_new 100 8 ''t.cpp'' 1 instance0)))"
    by (rule proper_run.after) (rule proper_step.ctor_raw; code_simp)
  then show ?thesis
    unfolding owned_root_def
    by (rule proper_run.after) (rule proper_step.ctor_raw; code_simp)
qed

lemma proper_run_main_new_A: "proper_run main_new_A"
proof -
  have "proper_run (operator_new 100 48 ''main.cpp'' 400 instance0)"
    by (rule proper_run.after [rotated], rule proper_step.new, code_simp, rule proper_run.start)
  then have "proper_run (Ptr_default 100 False (operator_new 100 48 ''main.cpp'' 400 instance0))"
    by (rule proper_run.after) (rule proper_step.ctor_default; code_simp)
  then have "proper_run (Ptr_default 124 False
      (Ptr_default 100 False (operator_new 100 48 ''main.cpp'' 400 instance0)))"
    by (rule proper_run.after) (rule proper_step.ctor_default; code_simp)
  then show ?thesis
    unfolding main_new_A_def
    by (rule proper_run.after) (rule proper_step.ctor_raw; code_simp)
qed

lemma proper_run_main_new_B: "proper_run main_new_B"
proof -
  from proper_run_main_new_A have "proper_run (operator_new 200 24 ''main.cpp'' 402 main_new_A)"
    by (rule proper_run.after) (rule proper_step.new; code_simp)
  then have "proper_run (Ptr_default 200 False (operator_new 200 24 ''main.cpp'' 402 main_new_A))"
    by (rule proper_run.after) (rule proper_step.ctor_default; code_simp)
  then show ?thesis
    unfolding main_new_B_def
    by (rule proper_run.after) (rule proper_step_assign_raw_projr; code_simp)
qed

lemma proper_run_main_new_C: "proper_run main_new_C"
proof -
  from proper_run_main_new_B have "proper_run (operator_new 300 24 ''main.cpp'' 403 main_new_B)"
    by (rule proper_run.after) (rule proper_step.new; code_simp)
  then have "proper_run (Ptr_default 300 False (operator_new 300 24 ''main.cpp'' 403 main_new_B))"
    by (rule proper_run.after) (rule proper_step.ctor_default; code_simp)
  then show ?thesis
    unfolding main_new_C_def
    by (rule proper_run.after) (rule proper_step_assign_raw_projr; code_simp)
qed

lemma proper_run_main_new_D: "proper_run main_new_D"
proof -
  from proper_run_main_new_C have "proper_run (operator_new 400 24 ''main.cpp'' 405 main_new_C)"
    by (rule proper_run.after) (rule proper_step.new; code_simp)
  then have "proper_run (Ptr_default 400 False (operator_new 400 24 ''main.cpp'' 405 main_new_C))"
    by (rule proper_run.after) (rule proper_step.ctor_default; code_simp)
  then show ?thesis
    unfolding main_new_D_def
    by (rule proper_run.after) (rule proper_step_assign_raw_projr; code_simp)
qed

lemma proper_run_main_before_collect: "proper_run main_before_collect"
proof -
  from proper_run_main_new_D have "proper_run (projr (Ptr_assign 400 124 main_new_D))"
    by (rule proper_run.after) (rule proper_step_assign_projr; code_simp)
  then show ?thesis
    unfolding main_before_collect_def
    by (rule proper_run.after) (rule proper_step_assign_raw_projr; code_simp)
qed

text \<open>
  The heap \<open>owned_root\<close>: the destructor of \<^verbatim>\<open>X\<close> destroys the root handle that \<^verbatim>\<open>X\<close> owns
  outside its block.  The first collection sweeps \<^verbatim>\<open>X\<close> and keeps \<^verbatim>\<open>Y\<close>, which that
  root handle holds; it does not keep the root handle, and the second collection sweeps
  \<^verbatim>\<open>Y\<close>.
\<close>

lemma owned_root_collect_twice:
  "\<exists>s' s''. CollectGarbage owner_teardown 3 owned_root = Some (Inr s')
     \<and> CollectGarbage owner_teardown 3 s' = Some (Inr s'')
     \<and> map fst (objects s') = [200] \<and> pointers s' = [10] \<and> \<not> handles_kept owned_root s'
     \<and> map fst (objects s'') = [] \<and> finalized s'' = [100, 200]"
proof -
  have "collect_twice owner_teardown 3 owned_root =
      Some (([200], [100], [Some 100], [10], 8),
        Some (Inr ([], [100, 200], [Some 100, Some 200], [10], 0)))"
    by code_simp
  from collect_twice_Inr [OF this] obtain s' s''
    where s: "CollectGarbage owner_teardown 3 owned_root = Some (Inr s')"
      "observe s' = ([200], [100], [Some 100], [10], 8)"
      "CollectGarbage owner_teardown 3 s' = Some (Inr s'')"
      "observe s'' = ([], [100, 200], [Some 100, Some 200], [10], 0)"
    by blast
  from s(2) have o1: "map fst (objects s') = [200]" "pointers s' = [10]"
    by (simp_all add: observe_def)
  from s(4) have o2: "map fst (objects s'') = []" "finalized s'' = [100, 200]"
    by (simp_all add: observe_def)
  have "\<not> (\<forall>h \<in> set (pointers owned_root).
     IsRoot owned_root h \<or> (\<exists>(a, r) \<in> set (objects owned_root). a \<in> set [200] \<and> in_range r h)
       \<longrightarrow> h \<in> set [10])"
    by code_simp
  then have nk: "\<not> handles_kept owned_root s'"
    unfolding handles_kept_def o1 .
  show ?thesis
    by (intro exI [of _ s'] exI [of _ s''] conjI) (fact s(1) s(3) o1 o2 nk)+
qed

section \<open>The claims\<close>

text \<open>
  C1: after \<^verbatim>\<open>CollectGarbage\<close> has returned, every registered record that is reachable
  from a bound root handle (through handles stored inside a record and bound to another
  record) is still registered, and has been neither finalized nor released; every
  registered record that is not reachable is no longer registered, its storage has been
  released once and its finalizer has been called once.  This holds whatever handles the
  destructors of the client destroy.
\<close>

theorem collect_reachability:
  assumes "heap_inv s" and "CollectGarbage D n s = Some (Inr s')" and "find_info s a \<noteq> None"
  shows "(a \<in> reach s \<longrightarrow>
           find_info s' a \<noteq> None
           \<and> count_list (finalized s') a = count_list (finalized s) a
           \<and> count_list (released s') (Some a) = count_list (released s) (Some a))
       \<and> (a \<notin> reach s \<longrightarrow>
           find_info s' a = None
           \<and> count_list (finalized s') a = count_list (finalized s) a + 1
           \<and> count_list (released s') (Some a) = count_list (released s) (Some a) + 1)"
proof -
  note inv = heap_inv_parts(1,2) [OF assms(1)]
  from CollectGarbage_find [OF inv assms(2), of a] CollectGarbage_logs [OF inv assms(2,3)] assms(3)
  show ?thesis by simp
qed

theorem collect_reachability_witness:
  "\<exists>s'. heap_inv main_before_collect
     \<and> CollectGarbage member_handles 5 main_before_collect = Some (Inr s')
     \<and> 100 \<in> reach main_before_collect \<and> find_info s' 100 \<noteq> None
     \<and> count_list (finalized s') 100 = 0
     \<and> 300 \<notin> reach main_before_collect \<and> find_info s' 300 = None
     \<and> count_list (finalized s') 300 = 1 \<and> count_list (released s') (Some 300) = 1"
proof -
  have inv: "heap_inv main_before_collect" by code_simp
  have "collect_observe member_handles 5 main_before_collect =
      Some (Inr ([100, 200], [300, 400], [Some 300, Some 400], [100, 124, 10, 200], 72))"
    by code_simp
  from collect_observe_Inr [OF this] obtain s'
    where s': "CollectGarbage member_handles 5 main_before_collect = Some (Inr s')" by blast
  have "reach_list 5 main_before_collect = Some [100, 200]" by code_simp
  from reach_list_reach [OF heap_inv_parts(2) [OF inv] this]
  have r: "reach main_before_collect = {100, 200}" by simp
  have reg: "find_info main_before_collect 100 \<noteq> None" "find_info main_before_collect 300 \<noteq> None"
    by code_simp+
  have fin: "count_list (finalized main_before_collect) 100 = 0"
    "count_list (finalized main_before_collect) 300 = 0"
    "count_list (released main_before_collect) (Some 300) = 0"
    by code_simp+
  have in_r: "100 \<in> reach main_before_collect" and out_r: "300 \<notin> reach main_before_collect"
    by (simp_all add: r)
  from collect_reachability [OF inv s' reg(1)] in_r
  have k: "find_info s' 100 \<noteq> None" "count_list (finalized s') 100 = 0"
    by (simp_all add: fin)
  from collect_reachability [OF inv s' reg(2)] out_r
  have g: "find_info s' 300 = None" "count_list (finalized s') 300 = 1"
    "count_list (released s') (Some 300) = 1"
    by (simp_all add: fin)
  show ?thesis
    by (intro exI [of _ s'] conjI) (fact inv s' in_r out_r k g)+
qed

text \<open>
  C2: a set of registered records in which every member refers to another member (as
  the members of a cycle do) and of which no member is reachable from a root handle is
  freed completely by one collection that returns normally.  In the scenario of
  \<^verbatim>\<open>main\<close> the collection returns normally, keeps exactly \<^verbatim>\<open>A\<close> and \<^verbatim>\<open>B\<close> (100, 200), and
  finalizes and releases exactly \<^verbatim>\<open>C\<close> and \<^verbatim>\<open>D\<close> (300, 400).
\<close>

theorem cycle_reclaimed:
  "(heap_inv s \<and> CollectGarbage D n s = Some (Inr s')
      \<and> (\<forall>a \<in> K. \<exists>b \<in> K. (a, b) \<in> edges s) \<and> K \<inter> reach s = {}
    \<longrightarrow> (\<forall>a \<in> K. find_info s a \<noteq> None \<and> find_info s' a = None
          \<and> count_list (finalized s') a = count_list (finalized s) a + 1
          \<and> count_list (released s') (Some a) = count_list (released s) (Some a) + 1))
   \<and> (\<exists>s'. CollectGarbage member_handles 5 main_before_collect = Some (Inr s')
        \<and> map fst (objects s') = [100, 200]
        \<and> finalized s' = [300, 400]
        \<and> released s' = [Some 300, Some 400])"
proof (intro conjI impI ballI)
  fix a
  assume h: "heap_inv s \<and> CollectGarbage D n s = Some (Inr s')
      \<and> (\<forall>a \<in> K. \<exists>b \<in> K. (a, b) \<in> edges s) \<and> K \<inter> reach s = {}" and a: "a \<in> K"
  then obtain b where "(a, b) \<in> edges s" by blast
  then show reg: "find_info s a \<noteq> None" by (auto dest: edges_registered)
  from h a have nr: "a \<notin> reach s" by auto
  from h have inv: "keys_ok s" "marks_ok s" and run: "CollectGarbage D n s = Some (Inr s')"
    by (simp_all add: heap_inv_def)
  from CollectGarbage_find [OF inv run, of a] nr show "find_info s' a = None" by simp
  from CollectGarbage_logs [OF inv run reg] nr
  show "count_list (finalized s') a = count_list (finalized s) a + 1"
    and "count_list (released s') (Some a) = count_list (released s) (Some a) + 1"
    by simp_all
next
  have "collect_observe member_handles 5 main_before_collect =
      Some (Inr ([100, 200], [300, 400], [Some 300, Some 400], [100, 124, 10, 200], 72))"
    by code_simp
  from collect_observe_Inr [OF this]
  show "\<exists>s'. CollectGarbage member_handles 5 main_before_collect = Some (Inr s')
        \<and> map fst (objects s') = [100, 200]
        \<and> finalized s' = [300, 400]
        \<and> released s' = [Some 300, Some 400]"
    by (auto simp add: observe_def)
qed

theorem cycle_reclaimed_witness:
  "\<exists>s'. heap_inv main_before_collect
     \<and> CollectGarbage member_handles 5 main_before_collect = Some (Inr s')
     \<and> (300, 400) \<in> edges main_before_collect \<and> (400, 300) \<in> edges main_before_collect
     \<and> {300, 400} \<inter> reach main_before_collect = {}
     \<and> find_info s' 300 = None \<and> find_info s' 400 = None
     \<and> count_list (finalized s') 300 = count_list (finalized main_before_collect) 300 + 1
     \<and> count_list (finalized s') 400 = count_list (finalized main_before_collect) 400 + 1"
proof -
  have inv: "heap_inv main_before_collect" by code_simp
  have "collect_observe member_handles 5 main_before_collect =
      Some (Inr ([100, 200], [300, 400], [Some 300, Some 400], [100, 124, 10, 200], 72))"
    by code_simp
  from collect_observe_Inr [OF this] obtain s'
    where s': "CollectGarbage member_handles 5 main_before_collect = Some (Inr s')" by blast
  have "reach_list 5 main_before_collect = Some [100, 200]" by code_simp
  from reach_list_reach [OF heap_inv_parts(2) [OF inv] this]
  have r: "{300, 400} \<inter> reach main_before_collect = {}" by simp
  have e: "(300, 400) \<in> edges main_before_collect" "(400, 300) \<in> edges main_before_collect"
    unfolding edges_def mem_Collect_eq prod.case by code_simp+
  then have cyc: "\<forall>a \<in> {300, 400}. \<exists>b \<in> {300, 400}. (a, b) \<in> edges main_before_collect"
    by simp
  have "heap_inv main_before_collect \<and> CollectGarbage member_handles 5 main_before_collect = Some (Inr s')
      \<and> (\<forall>a \<in> {300, 400}. \<exists>b \<in> {300, 400}. (a, b) \<in> edges main_before_collect)
      \<and> {300, 400} \<inter> reach main_before_collect = {}"
    by (intro conjI) (fact inv s' cyc r)+
  from cycle_reclaimed [where s = main_before_collect and D = member_handles and n = 5 and s' = s'
      and K = "{300, 400}", THEN conjunct1, THEN mp, OF this]
  have all: "\<forall>a \<in> {300, 400}. find_info main_before_collect a \<noteq> None \<and> find_info s' a = None
          \<and> count_list (finalized s') a = count_list (finalized main_before_collect) a + 1
          \<and> count_list (released s') (Some a) = count_list (released main_before_collect) (Some a) + 1"
    .
  from all have c: "find_info s' 300 = None"
    "count_list (finalized s') 300 = count_list (finalized main_before_collect) 300 + 1"
    by simp_all
  from all have d: "find_info s' 400 = None"
    "count_list (finalized s') 400 = count_list (finalized main_before_collect) 400 + 1"
    by simp_all
  show ?thesis
    by (intro exI [of _ s'] conjI) (fact inv s' e r c d)+
qed

text \<open>
  C3: let the heap satisfy the invariant, let the destructors of the client destroy
  existing handles, each once, and let the bound on the depth of marking be above the
  number of records.  Then the collection ends in the fatal call of a null finalizer if
  and only if some record that it sweeps (a registered record that is not reachable)
  has no finalizer bound; otherwise it returns normally.  The fatal call is a result of
  its own: the record is not skipped.
\<close>

theorem collect_fatal_iff:
  assumes "heap_inv s" and "teardown_ok D" and "length (objects s) < n"
  shows "(CollectGarbage D n s = Some (Inl NullFinalizer) \<longleftrightarrow>
            (\<exists>a r. find_info s a = Some r \<and> a \<notin> reach s \<and> oi_destroy r = None))
       \<and> ((\<exists>s'. CollectGarbage D n s = Some (Inr s')) \<longleftrightarrow>
            \<not> (\<exists>a r. find_info s a = Some r \<and> a \<notin> reach s \<and> oi_destroy r = None))"
proof -
  obtain res where "CollectGarbage D (Suc (length (objects s))) s = Some res"
    using CollectGarbage_total by blast
  with assms(3) have res: "CollectGarbage D n s = Some res"
    by (intro CollectGarbage_mono [where n = "Suc (length (objects s))" and m = n]) simp_all
  note f = CollectGarbage_fatal [OF assms(1,2) res]
  have r: "(\<exists>s'. res = Inr s') \<longleftrightarrow> res \<noteq> Inl NullFinalizer"
  proof (cases res)
    case (Inl e)
    with f(1) show ?thesis by (cases e) simp_all
  next
    case (Inr s')
    then show ?thesis by simp
  qed
  from f(2) r res show ?thesis by simp
qed

theorem collect_fatal_iff_witness:
  "heap_inv bare_object \<and> teardown_ok member_handles \<and> length (objects bare_object) < 2
   \<and> CollectGarbage member_handles 2 bare_object = Some (Inl NullFinalizer)
   \<and> (\<exists>a r. find_info bare_object a = Some r \<and> a \<notin> reach bare_object \<and> oi_destroy r = None)
   \<and> heap_inv one_object \<and> length (objects one_object) < 2
   \<and> (\<exists>s'. CollectGarbage member_handles 2 one_object = Some (Inr s'))
   \<and> \<not> (\<exists>a r. find_info one_object a = Some r \<and> a \<notin> reach one_object \<and> oi_destroy r = None)"
proof -
  have inv: "heap_inv bare_object" "heap_inv one_object" by code_simp+
  have len: "length (objects bare_object) < 2" "length (objects one_object) < 2" by code_simp+
  note td = teardown_ok_member_handles
  have "collect_observe member_handles 2 bare_object = Some (Inl NullFinalizer)" by code_simp
  then have fatal: "CollectGarbage member_handles 2 bare_object = Some (Inl NullFinalizer)"
    by (rule collect_observe_Inl)
  have "collect_observe member_handles 2 one_object = Some (Inr ([], [100], [Some 100], [10], 0))"
    by code_simp
  from collect_observe_Inr [OF this]
  have ok: "\<exists>s'. CollectGarbage member_handles 2 one_object = Some (Inr s')"
    by blast
  from collect_fatal_iff [OF inv(1) td len(1)] fatal
  have un: "\<exists>a r. find_info bare_object a = Some r \<and> a \<notin> reach bare_object \<and> oi_destroy r = None"
    by simp
  have no: "\<not> (\<exists>a r. find_info one_object a = Some r \<and> a \<notin> reach one_object \<and> oi_destroy r = None)"
    using collect_fatal_iff [OF inv(2) td len(2)] ok by simp
  show ?thesis
    by (intro conjI) (fact inv td len fatal un ok no)+
qed

text \<open>
  C4: in a heap that satisfies the invariant, let the registered handle \<open>h\<close> be bound to
  the record \<open>a\<close>.  After \<^verbatim>\<open>operator delete\<close> of \<open>a\<close> the record is gone and the handle, which
  is still registered, is invalid with empty target and empty record.  After a
  collection that removed the record, the handle, if it still exists, is invalid with
  empty target and empty record.
\<close>

theorem handle_invalidation:
  assumes "heap_inv s" and "h \<in> set (pointers s)" and "ptr_info (get_ptr s h) = Some a"
  shows "(find_info (operator_delete (Some a) s) a = None
          \<and> h \<in> set (pointers (operator_delete (Some a) s))
          \<and> \<not> IsValid (operator_delete (Some a) s) h
          \<and> ptr_object (get_ptr (operator_delete (Some a) s) h) = None
          \<and> ptr_info (get_ptr (operator_delete (Some a) s) h) = None)
       \<and> (CollectGarbage D n s = Some (Inr s') \<and> find_info s' a = None \<and> handles s' h \<noteq> None \<longrightarrow>
            \<not> IsValid s' h \<and> ptr_object (get_ptr s' h) = None \<and> ptr_info (get_ptr s' h) = None)"
proof (intro conjI impI)
  note inv = heap_inv_parts [OF assms(1)]
  from bound_okD [OF inv(4) assms(2,3)] obtain r where r: "find_info s a = Some r" "h \<in> set (oi_pointers r)"
    by blast
  note d = operator_delete_fields [OF r(1)]
  show "find_info (operator_delete (Some a) s) a = None" by (simp add: d)
  show "h \<in> set (pointers (operator_delete (Some a) s))" using assms(2) by (simp add: d)
  show "\<not> IsValid (operator_delete (Some a) s) h" using r(2) by (simp add: IsValid_def d)
  show "ptr_object (get_ptr (operator_delete (Some a) s) h) = None" using r(2) by (simp add: d)
  show "ptr_info (get_ptr (operator_delete (Some a) s) h) = None" using r(2) by (simp add: d)
  assume c: "CollectGarbage D n s = Some (Inr s') \<and> find_info s' a = None \<and> handles s' h \<noteq> None"
  then have run: "CollectGarbage D n s = Some (Inr s')" and gone: "find_info s' a = None" by simp_all
  let ?as = "filter (\<lambda>a. a \<notin> reach s) (map fst (objects s))"
  from CollectGarbage_find [OF inv(1,2) run, of a] gone r(1) have "a \<notin> reach s" by simp
  with r(1) have a: "a \<in> set ?as" by (auto dest: find_info_key)
  from CollectGarbage_Inr(1) [OF inv(1,2) run] have sw: "sweep D ?as (flipped s) = Inr s'" .
  have "cleared s' h"
    by (rule sweep_clears [OF _ sw a]) (simp_all add: inv(4) assms(2,3))
  then show "\<not> IsValid s' h" "ptr_object (get_ptr s' h) = None" "ptr_info (get_ptr s' h) = None"
    by (simp_all add: cleared_def IsValid_def)
qed

theorem handle_invalidation_witness:
  "\<exists>s'. heap_inv one_object \<and> 10 \<in> set (pointers one_object)
     \<and> ptr_info (get_ptr one_object 10) = Some 100
     \<and> find_info (operator_delete (Some 100) one_object) 100 = None
     \<and> \<not> IsValid (operator_delete (Some 100) one_object) 10
     \<and> CollectGarbage member_handles 2 one_object = Some (Inr s') \<and> find_info s' 100 = None
     \<and> handles s' 10 \<noteq> None
     \<and> \<not> IsValid s' 10 \<and> ptr_object (get_ptr s' 10) = None \<and> ptr_info (get_ptr s' 10) = None"
proof -
  have inv: "heap_inv one_object" by code_simp
  have h: "10 \<in> set (pointers one_object)" by code_simp
  have b: "ptr_info (get_ptr one_object 10) = Some 100" by code_simp
  have "collect_handles member_handles 2 one_object [10] =
      Some (Inr [Some \<lparr>ptr_object = None, ptr_info = None, ptr_root = False\<rparr>])"
    by code_simp
  from collect_handles_Inr [OF this] obtain s'
    where s': "CollectGarbage member_handles 2 one_object = Some (Inr s')" and alive: "handles s' 10 \<noteq> None"
    by auto
  have "collect_observe member_handles 2 one_object = Some (Inr ([], [100], [Some 100], [10], 0))" by code_simp
  from collect_observe_Inr [OF this] s' have "map fst (objects s') = []"
    by (auto simp add: observe_def)
  then have gone: "find_info s' 100 = None" by (simp add: find_info_def)
  note th = handle_invalidation [OF inv h b, where D = member_handles and n = 2 and s' = s']
  from th have d: "find_info (operator_delete (Some 100) one_object) 100 = None"
    "\<not> IsValid (operator_delete (Some 100) one_object) 10"
    by simp_all
  have "CollectGarbage member_handles 2 one_object = Some (Inr s') \<and> find_info s' 100 = None \<and> handles s' 10 \<noteq> None"
    by (intro conjI) (fact s' gone alive)+
  from th [THEN conjunct2, THEN mp, OF this]
  have c: "\<not> IsValid s' 10" "ptr_object (get_ptr s' 10) = None" "ptr_info (get_ptr s' 10) = None"
    by simp_all
  show ?thesis
    by (intro exI [of _ s'] conjI) (fact inv h b d s' gone alive c)+
qed








text \<open>
  C8: the claim is that a handle constructed from an address that is not registered has
  an empty record reference.  \<^verbatim>\<open>Ptr(T*)\<close> does not assign \<^verbatim>\<open>info\<close> on that path, so the field
  keeps what the storage held: constructed over storage that holds the non-null value
  77, the handle has \<^verbatim>\<open>info\<close> 77, and its destructor then follows that pointer to no
  record.  The assignment \<^verbatim>\<open>operator=(T*)\<close> from the same address does clear the field.
\<close>

theorem Ptr_raw_unregistered_keeps_info:
  "ptr_info (get_ptr (Ptr_raw 10 False ''T'' (Some 500) (Some 77) instance0) 10) = Some 77
   \<and> ptr_object (get_ptr (Ptr_raw 10 False ''T'' (Some 500) (Some 77) instance0) 10) = Some 500
   \<and> Ptr_dtor 10 (Ptr_raw 10 False ''T'' (Some 500) (Some 77) instance0) = Inl WildPointer
   \<and> (\<exists>s'. Ptr_assign_raw 10 ''T'' (Some 500) (Ptr_default 10 False instance0) = Inr s'
        \<and> ptr_object (get_ptr s' 10) = Some 500 \<and> ptr_info (get_ptr s' 10) = None)"
proof -
  have a: "ptr_info (get_ptr (Ptr_raw 10 False ''T'' (Some 500) (Some 77) instance0) 10) = Some 77"
    by code_simp
  have b: "ptr_object (get_ptr (Ptr_raw 10 False ''T'' (Some 500) (Some 77) instance0) 10) = Some 500"
    by code_simp
  have "map_sum id (\<lambda>s'. ()) (Ptr_dtor 10 (Ptr_raw 10 False ''T'' (Some 500) (Some 77) instance0))
      = Inl WildPointer"
    by code_simp
  then have c: "Ptr_dtor 10 (Ptr_raw 10 False ''T'' (Some 500) (Some 77) instance0) = Inl WildPointer"
    by (cases "Ptr_dtor 10 (Ptr_raw 10 False ''T'' (Some 500) (Some 77) instance0)") auto
  have "map_sum id (\<lambda>s'. (ptr_object (get_ptr s' 10), ptr_info (get_ptr s' 10)))
      (Ptr_assign_raw 10 ''T'' (Some 500) (Ptr_default 10 False instance0)) = Inr (Some 500, None)"
    by code_simp
  then have d: "\<exists>s'. Ptr_assign_raw 10 ''T'' (Some 500) (Ptr_default 10 False instance0) = Inr s'
        \<and> ptr_object (get_ptr s' 10) = Some 500 \<and> ptr_info (get_ptr s' 10) = None"
    by (cases "Ptr_assign_raw 10 ''T'' (Some 500) (Ptr_default 10 False instance0)") auto
  from a b c d show ?thesis by (intro conjI)
qed

text \<open>
  C9: \<^verbatim>\<open>operator delete\<close> on an address that the registry does not know only releases the
  storage: the record table, the global handle registry, the byte counter and every
  handle are unchanged.
\<close>

theorem operator_delete_unknown:
  assumes "find_object s data = None"
  shows "objects (operator_delete data s) = objects s
    \<and> pointers (operator_delete data s) = pointers s
    \<and> allocatedBytes (operator_delete data s) = allocatedBytes s
    \<and> handles (operator_delete data s) = handles s
    \<and> currentMark (operator_delete data s) = currentMark s
    \<and> finalized (operator_delete data s) = finalized s
    \<and> released (operator_delete data s) = released s @ [data]"
  using assms by (simp add: operator_delete_def find_object_def split: option.splits)

theorem operator_delete_unknown_witness:
  "find_object one_object (Some 200) = None
    \<and> objects (operator_delete (Some 200) one_object) = objects one_object
    \<and> pointers (operator_delete (Some 200) one_object) = pointers one_object
    \<and> allocatedBytes (operator_delete (Some 200) one_object) = allocatedBytes one_object
    \<and> handles (operator_delete (Some 200) one_object) = handles one_object
    \<and> released (operator_delete (Some 200) one_object) = released one_object @ [Some 200]"
proof -
  have h: "find_object one_object (Some 200) = None" by code_simp
  from operator_delete_unknown [OF h] h show ?thesis by simp
qed

text \<open>
  C10: a call of \<^verbatim>\<open>CollectGarbage\<close> terminates in every state of the heap, whatever
  the shape of the reference graph: there is a result that the call returns for every
  bound on the depth of marking above the number of registered records.  (The result
  is the swept heap or the failure of the sweep.)  The recursion of
  \<^verbatim>\<open>MarkObject\<close> only enters records that do not carry the current mark, and each call
  marks one.
\<close>

theorem CollectGarbage_terminates:
  "\<exists>res. \<forall>n. length (objects s) < n \<longrightarrow> CollectGarbage D n s = Some res"
proof -
  obtain res where res: "CollectGarbage D (Suc (length (objects s))) s = Some res"
    using CollectGarbage_total by blast
  have "CollectGarbage D n s = Some res" if "length (objects s) < n" for n
    using that res by (intro CollectGarbage_mono [where n = "Suc (length (objects s))" and m = n]) simp_all
  then show ?thesis by blast
qed

theorem CollectGarbage_terminates_witness:
  "length (objects main_before_collect) < 5 \<and> (\<exists>res. CollectGarbage member_handles 5 main_before_collect = Some res)"
proof -
  have len: "length (objects main_before_collect) < 5" by code_simp
  with CollectGarbage_terminates [where s = main_before_collect and D = member_handles]
  show ?thesis by blast
qed

end
